theory Spec2Isabelle
  imports Complex_Main "HOL-Library.Word" "HOL-Library.List_Lexorder"
begin

section \<open>JavaScript strings\<close>

text \<open>
  A JavaScript string is a sequence of UTF-16 code units: \<open>length\<close>, \<open>includes\<close>,
  \<open>trim\<close> and the regular expressions of the sources (none has the \<open>u\<close> flag) all work
  on code units. A string is therefore a list of 16-bit words; \<open>js\<close> writes an ASCII
  literal, and the few non-ASCII letters of the keyword tables are given by their code
  unit.
\<close>

type_synonym js_string = "16 word list"

definition js :: "string \<Rightarrow> js_string" where
  "js s = map of_char s"

text \<open>
  \<open>String.prototype.startsWith\<close> and \<open>String.prototype.includes\<close> (named
  \<open>str_includes\<close>: the bare name is a keyword of Isabelle).
\<close>

fun startsWith :: "js_string \<Rightarrow> js_string \<Rightarrow> bool" where
  "startsWith s [] = True"
| "startsWith [] (k # ks) = False"
| "startsWith (c # cs) (k # ks) = (c = k \<and> startsWith cs ks)"

fun str_includes :: "js_string \<Rightarrow> js_string \<Rightarrow> bool" where
  "str_includes [] k = startsWith [] k"
| "str_includes (c # cs) k = (startsWith (c # cs) k \<or> str_includes cs k)"

text \<open>
  \<open>String.prototype.toLowerCase\<close>. The built-in follows the Unicode case mapping. The
  model has the mapping of every code unit whose lower case holds a code unit of a
  keyword of \<open>detectIntent\<close> or of a restricted term of \<open>validateQuery\<close>: the letters
  A to Z, the capitals C cedilla (U+00C7), E grave (U+00C8), E acute (U+00C9), U grave
  (U+00D9) and S cedilla (U+015E), the Kelvin sign (U+212A, lowered to \<open>k\<close>) and the
  capital I with dot above (U+0130, lowered to \<open>i\<close> followed by the combining dot
  U+0307). Every other code unit is left as it is: the built-in sends it to code units
  that occur in no keyword and in no restricted term, so the keywords and terms found
  in the lowercased text are the same.
\<close>

definition lowerUnit :: "16 word \<Rightarrow> 16 word list" where
  "lowerUnit c =
     (if 0x41 \<le> c \<and> c \<le> 0x5A then [c + 0x20]
      else if c = 0xC7 \<or> c = 0xC8 \<or> c = 0xC9 \<or> c = 0xD9 then [c + 0x20]
      else if c = 0x15E then [0x15F]
      else if c = 0x212A then [0x6B]
      else if c = 0x130 then [0x69, 0x307]
      else [c])"

definition toLowerCase :: "js_string \<Rightarrow> js_string" where
  "toLowerCase s = concat (map lowerUnit s)"

text \<open>
  The white space of ECMAScript (WhiteSpace and LineTerminator), which is what
  \<open>trim\<close> strips and what \<open>\s\<close> matches.
\<close>

definition isWhiteSpace :: "16 word \<Rightarrow> bool" where
  "isWhiteSpace c =
     (c = 0x09 \<or> c = 0x0A \<or> c = 0x0B \<or> c = 0x0C \<or> c = 0x0D \<or> c = 0x20 \<or> c = 0xA0
      \<or> c = 0x1680 \<or> (0x2000 \<le> c \<and> c \<le> 0x200A) \<or> c = 0x2028 \<or> c = 0x2029
      \<or> c = 0x202F \<or> c = 0x205F \<or> c = 0x3000 \<or> c = 0xFEFF)"

definition trim :: "js_string \<Rightarrow> js_string" where
  "trim s = rev (dropWhile isWhiteSpace (rev (dropWhile isWhiteSpace s)))"

text \<open>The test \<open>!text || text.trim().length === 0\<close> on a string.\<close>

definition isBlank :: "js_string \<Rightarrow> bool" where
  "isBlank text = (text = [] \<or> length (trim text) = 0)"

text \<open>A thrown \<open>Error\<close>, with its message.\<close>

datatype error = Error string

section \<open>Intent detection and the handoff policy (OrchestratorService)\<close>

record intent =
  name :: js_string
  confidence :: real
  intentKeywords :: "js_string list"

text \<open>
  The keyword table of \<open>detectIntent\<close>, as an association list in the order of the
  object literal: \<open>Object.entries\<close> enumerates string keys in insertion order.
\<close>

definition intents :: "(js_string \<times> js_string list) list" where
  "intents =
    [(js ''business_hours'',
        [js ''heures'', js ''ouvert'', js ''horaires'', [0x61, 0xE7, 0x131, 0x6B],
         js ''saat'', js ''hours'', js ''open'']),
     (js ''services'',
        [js ''service'', js ''r'' @ [0xE9] @ js ''paration'', js ''repair'', js ''tamir'',
         js ''hizmet'']),
     (js ''appointment'',
        [js ''rendez-vous'', js ''appointment'', js ''randevu'',
         js ''r'' @ [0xE9] @ js ''server'', js ''book'']),
     (js ''technical_support'',
        [js ''probl'' @ [0xE8] @ js ''me'', js ''problem'', js ''sorun'', js ''bug'',
         js ''error'', js ''panne'']),
     (js ''pricing'',
        [js ''prix'', js ''tarif'', js ''cost'', js ''price'', js ''fiyat'']),
     (js ''location'',
        [js ''adresse'', js ''o'' @ [0xF9], js ''location'', js ''address'', js ''adres'',
         js ''nerede'']),
     (js ''contact'',
        [js ''contact'', js ''email'', js ''t'' @ [0xE9] @ js ''l'' @ [0xE9] @ js ''phone'',
         js ''phone'', js ''ileti'' @ [0x15F] @ js ''im'']),
     (js ''agent_request'',
        [js ''agent'', js ''personne'', js ''human'', js ''temsilci'', js ''insan''])]"

text \<open>\<open>keywords.filter(keyword => lowerText.includes(keyword)).length\<close>\<close>

definition countMatches :: "js_string \<Rightarrow> js_string list \<Rightarrow> nat" where
  "countMatches lowerText kws = length (filter (str_includes lowerText) kws)"

text \<open>
  The \<open>for\<close> loop of \<open>detectIntent\<close> over the entries, on the pair
  \<open>(detectedIntent, maxMatches)\<close>.
\<close>

fun detectLoop ::
  "js_string \<Rightarrow> (js_string \<times> js_string list) list \<Rightarrow> js_string \<times> nat \<Rightarrow> js_string \<times> nat"
where
  "detectLoop lowerText [] st = st"
| "detectLoop lowerText ((i, kws) # rest) (detectedIntent, maxMatches) =
     (let matches = countMatches lowerText kws
      in if matches > maxMatches then detectLoop lowerText rest (i, matches)
         else detectLoop lowerText rest (detectedIntent, maxMatches))"

text \<open>
  \<open>detectIntent\<close>. The confidence is \<open>Math.min(maxMatches * 0.3, 0.95)\<close>, a double in
  the source and a real number here; the comparisons the program makes with it
  (\<open>< 0.3\<close>, \<open>> 0.5\<close>) have the same outcome on both, since \<open>1 * 0.3\<close> is the double
  \<open>0.3\<close> itself.
\<close>

definition detectIntent :: "js_string \<Rightarrow> intent" where
  "detectIntent text =
     (case detectLoop (toLowerCase text) intents (js ''general_inquiry'', 0) of
        (detectedIntent, maxMatches) \<Rightarrow>
          \<lparr>name = detectedIntent,
           confidence = min (real maxMatches * 0.3) 0.95,
           intentKeywords = (case map_of intents detectedIntent of Some kws \<Rightarrow> kws | None \<Rightarrow> [])\<rparr>)"

text \<open>
  The number of keywords of each intent that occur in the lowercased text, in the order
  of the table: the value \<open>matches\<close> takes in each round of the loop of \<open>detectIntent\<close>.
\<close>

definition matchCounts :: "js_string \<Rightarrow> nat list" where
  "matchCounts text = map (\<lambda>(i, kws). countMatches (toLowerCase text) kws) intents"

text \<open>
  An entry of \<open>toolResults\<close>. The orchestrator reads \<open>tool\<close> and \<open>summary\<close> only; the
  payload \<open>data\<close> is carried along untouched and is left out.
\<close>

record tool_result =
  tool :: js_string
  summary :: js_string

text \<open>
  \<open>shouldHandoff\<close>. \<open>isBusinessHours()\<close> reads the clock; its value at the moment of
  the call is the first argument. The response is an argument the source never reads.
\<close>

definition shouldHandoff :: "bool \<Rightarrow> intent \<Rightarrow> 'r \<Rightarrow> tool_result list \<Rightarrow> bool" where
  "shouldHandoff isBusinessHours i response toolResults =
     (if name i = js ''agent_request'' then True
      else if confidence i < 0.3 then True
      else if name i = js ''technical_support'' \<and> isBusinessHours then True
      else if \<not> list_ex (\<lambda>t. tool t = js ''knowledge_base'') toolResults
              \<and> name i \<noteq> js ''general_inquiry'' then True
      else False)"

text \<open>The table \<open>reasons\<close> of \<open>getHandoffReason\<close> and the lookup with its fallback.\<close>

definition reasons :: "(js_string \<times> js_string) list" where
  "reasons =
    [(js ''agent_request'', js ''Customer requested human agent''),
     (js ''technical_support'', js ''Technical support requires specialist''),
     (js ''low_confidence'', js ''Unable to understand request clearly''),
     (js ''no_knowledge'', js ''Information not available in knowledge base'')]"

definition getHandoffReason :: "intent \<Rightarrow> 'r \<Rightarrow> js_string" where
  "getHandoffReason i response =
     (case map_of reasons (name i) of
        Some r \<Rightarrow> r
      | None \<Rightarrow> js ''Customer needs personalized assistance'')"

section \<open>Conversation state and a turn of a call (OrchestratorService)\<close>

record message =
  role :: js_string
  content :: js_string

text \<open>
  The fields of the service object: the system prompt, which the constructor builds once
  (its text is a constant of the source and plays no part below), and the map
  \<open>conversationHistory\<close> from call id to message array.
\<close>

record orchestrator =
  systemPrompt :: js_string
  conversationHistory :: "js_string \<rightharpoonup> message list"

record call_context =
  accessLevel :: "js_string option"
  fromNumber :: "js_string option"

record rag_answer =
  hasResults :: bool
  resultCount :: nat

record contact =
  displayName :: js_string

text \<open>
  The collaborators a turn calls, each at most once, with what they answer: the
  retrieval service, the calendar (the number of slots it returns is all the turn reads),
  the contacts service, the language model (it answers with \<open>response.message\<close>) and the
  clock behind \<open>isBusinessHours()\<close>, which is read once when the prompt is built and once
  more inside \<open>shouldHandoff\<close>.
\<close>

record collaborators =
  ragQuery :: "js_string \<Rightarrow> js_string \<Rightarrow> error + rag_answer"
  findAvailableSlots :: "error + nat"
  getContactByPhone :: "js_string \<Rightarrow> error + contact option"
  generateResponse :: "message list \<Rightarrow> js_string \<Rightarrow> intent \<Rightarrow> error + js_string"
  openAtPrompt :: bool
  openAtDecision :: bool

text \<open>A number in a template literal: its decimal digits.\<close>

function showNat :: "nat \<Rightarrow> js_string" where
  "showNat n = (if n < 10 then [0x30 + of_nat n]
                else showNat (n div 10) @ [0x30 + of_nat (n mod 10)])"
  by pat_completeness auto
termination
  by (relation "measure id") auto

text \<open>\<open>x || d\<close> on an optional string: the empty string is falsy as well.\<close>

definition orDefault :: "js_string option \<Rightarrow> js_string \<Rightarrow> js_string" where
  "orDefault x d = (case x of None \<Rightarrow> d | Some s \<Rightarrow> if s = [] then d else s)"

text \<open>
  \<open>gatherContext\<close>: three steps inside one \<open>try\<close>; an error in a step is logged and the
  results gathered so far are returned.
\<close>

definition gatherContext ::
  "collaborators \<Rightarrow> intent \<Rightarrow> js_string \<Rightarrow> call_context \<Rightarrow> tool_result list"
where
  "gatherContext env i query ctx =
     (case (if name i \<noteq> js ''agent_request''
            then (case ragQuery env query (orDefault (accessLevel ctx) (js ''public'')) of
                    Inl e \<Rightarrow> Inl []
                  | Inr ragResults \<Rightarrow>
                      Inr (if hasResults ragResults
                           then [\<lparr>tool = js ''knowledge_base'',
                                  summary = js ''Found '' @ showNat (resultCount ragResults)
                                            @ js '' relevant documents''\<rparr>]
                           else []))
            else Inr []) of
        Inl results \<Rightarrow> results
      | Inr results1 \<Rightarrow>
          (case (if name i = js ''appointment''
                 then (case findAvailableSlots env of
                         Inl e \<Rightarrow> Inl results1
                       | Inr slots \<Rightarrow>
                           Inr (results1 @
                                [\<lparr>tool = js ''check_calendar'',
                                  summary = showNat slots @ js '' available time slots today''\<rparr>]))
                 else Inr results1) of
             Inl results \<Rightarrow> results
           | Inr results2 \<Rightarrow>
               (if orDefault (fromNumber ctx) [] \<noteq> [] \<and> confidence i > 0.5
                then (case getContactByPhone env (orDefault (fromNumber ctx) []) of
                        Inl e \<Rightarrow> results2
                      | Inr None \<Rightarrow> results2
                      | Inr (Some c) \<Rightarrow>
                          results2 @
                          [\<lparr>tool = js ''search_contacts'',
                            summary = js ''Caller identified: '' @ displayName c\<rparr>])
                else results2)))"

text \<open>The prompt \<open>enhancedPrompt\<close> that \<open>processCall\<close> builds for the language model.\<close>

definition enhancedPrompt :: "js_string \<Rightarrow> tool_result list \<Rightarrow> bool \<Rightarrow> js_string" where
  "enhancedPrompt userInput toolResults isOpen =
     userInput
     @ (if length toolResults > 0
        then [0x0A, 0x0A] @ js ''Context:'' @ [0x0A]
             @ concat (map (\<lambda>r. js ''- '' @ tool r @ js '': '' @ summary r @ [0x0A]) toolResults)
        else [])
     @ [0x0A, 0x0A] @ js ''Current status: ''
     @ (if isOpen then js ''Business is OPEN'' else js ''Business is CLOSED'')"

text \<open>
  The object a turn returns. Its fields \<open>callId\<close>, \<open>intent\<close>, \<open>confidence\<close> and
  \<open>response\<close> carry the prefix \<open>res\<close> here, and the nested \<open>context\<close> object is
  flattened.
\<close>

record turn_result =
  resCallId :: js_string
  resIntent :: js_string
  resConfidence :: real
  resResponse :: js_string
  needsHandoff :: bool
  handoffReason :: "js_string option"
  toolsUsed :: "js_string list"
  resIsBusinessHours :: bool
  conversationTurns :: real

text \<open>
  \<open>processCall\<close>. The history is created when the call id has none, the user message is
  pushed, and only then are the collaborators called: when the language model throws,
  \<open>processCall\<close> rethrows, and the map keeps what was written before.
\<close>

definition processCall ::
  "orchestrator \<Rightarrow> collaborators \<Rightarrow> js_string \<Rightarrow> js_string \<Rightarrow> call_context
     \<Rightarrow> orchestrator \<times> (error + turn_result)"
where
  "processCall svc env callId userInput ctx =
     (let created = (case conversationHistory svc callId of
                       None \<Rightarrow> [\<lparr>role = js ''system'', content = systemPrompt svc\<rparr>]
                     | Some messages \<Rightarrow> messages);
          messages1 = created @ [\<lparr>role = js ''user'', content = userInput\<rparr>];
          svc1 = svc\<lparr>conversationHistory := (conversationHistory svc)(callId \<mapsto> messages1)\<rparr>;
          i = detectIntent userInput;
          toolResults = gatherContext env i userInput ctx;
          isOpen = openAtPrompt env
      in case generateResponse env messages1 (enhancedPrompt userInput toolResults isOpen) i of
           Inl e \<Rightarrow> (svc1, Inl e)
         | Inr reply \<Rightarrow>
             (let messages2 = messages1 @ [\<lparr>role = js ''assistant'', content = reply\<rparr>];
                  svc2 = svc\<lparr>conversationHistory := (conversationHistory svc)(callId \<mapsto> messages2)\<rparr>;
                  handoff = shouldHandoff (openAtDecision env) i reply toolResults
              in (svc2,
                  Inr \<lparr>resCallId = callId,
                       resIntent = name i,
                       resConfidence = confidence i,
                       resResponse = reply,
                       needsHandoff = handoff,
                       handoffReason = (if handoff then Some (getHandoffReason i reply) else None),
                       toolsUsed = map tool toolResults,
                       resIsBusinessHours = isOpen,
                       conversationTurns =
                         real (length (filter (\<lambda>m. role m \<noteq> js ''system'') messages2)) / 2\<rparr>)))"

text \<open>\<open>clearHistory\<close>: \<open>Map.prototype.delete\<close> on the call id.\<close>

definition clearHistory :: "orchestrator \<Rightarrow> js_string \<Rightarrow> orchestrator" where
  "clearHistory svc callId =
     svc\<lparr>conversationHistory := (conversationHistory svc)(callId := None)\<rparr>"

section \<open>Query validation (RAGService)\<close>

record user_context =
  hasHighAccess :: bool
  userId :: "js_string option"

record validation =
  valid :: bool
  reason :: "js_string option"

definition restrictedCategories :: "js_string list" where
  "restrictedCategories = [js ''confidential'', js ''internal'']"

definition validateQuery :: "js_string \<Rightarrow> user_context \<Rightarrow> validation" where
  "validateQuery query userContext =
     (if list_ex (\<lambda>cat. str_includes (toLowerCase query) cat) restrictedCategories
         \<and> \<not> hasHighAccess userContext
      then \<lparr>valid = False, reason = Some (js ''Query contains restricted content'')\<rparr>
      else \<lparr>valid = True, reason = None\<rparr>)"

section \<open>Sample collaborators\<close>

text \<open>
  A service that already holds the history of a call \<open>c2\<close>, collaborators that all
  answer, and a variant whose knowledge base finds nothing.
\<close>

definition demoEnv :: collaborators where
  "demoEnv =
     \<lparr>ragQuery = (\<lambda>q a. Inr \<lparr>hasResults = True, resultCount = 2\<rparr>),
      findAvailableSlots = Inr 4,
      getContactByPhone = (\<lambda>p. Inr None),
      generateResponse = (\<lambda>ms p i. Inr (js ''ok'')),
      openAtPrompt = True,
      openAtDecision = True\<rparr>"

definition demoSvc :: orchestrator where
  "demoSvc = \<lparr>systemPrompt = js ''sys'',
              conversationHistory = [js ''c2'' \<mapsto> [\<lparr>role = js ''system'', content = js ''sys''\<rparr>]]\<rparr>"


definition noContext :: call_context where
  "noContext = \<lparr>accessLevel = None, fromNumber = None\<rparr>"

definition emptyKnowledgeEnv :: collaborators where
  "emptyKnowledgeEnv = demoEnv\<lparr>ragQuery := (\<lambda>q a. Inr \<lparr>hasResults = False, resultCount = 0\<rparr>)\<rparr>"

text \<open>Collaborators whose language model is not configured and throws.\<close>

definition failingModelEnv :: collaborators where
  "failingModelEnv =
     demoEnv\<lparr>generateResponse := (\<lambda>ms p i. Inl (Error ''OpenAI service not initialized''))\<rparr>"

section \<open>Batch embeddings (EmbeddingsService)\<close>

text \<open>
  The provider call \<open>client.embeddings.create\<close>, reduced to what the service reads of
  it: for the batch given as \<open>input\<close>, the embeddings of \<open>response.data\<close> in order, or
  an error. The client is absent when no API key is configured.
\<close>

type_synonym embedding = "real list"
type_synonym embeddings_client = "js_string list \<Rightarrow> error + embedding list"

text \<open>
  The \<open>for\<close> loop that cuts \<open>validTexts\<close> into slices of \<open>batchSize\<close>, by its index.
\<close>

definition batchSize :: nat where
  "batchSize = 2048"

function batchesFrom :: "nat \<Rightarrow> 'a list \<Rightarrow> 'a list list" where
  "batchesFrom i validTexts =
     (if i < length validTexts
      then take batchSize (drop i validTexts) # batchesFrom (i + batchSize) validTexts
      else [])"
  by pat_completeness auto
termination
  by (relation "measure (\<lambda>(i, validTexts). length validTexts - i)") (auto simp: batchSize_def)

declare batchesFrom.simps [simp del]

text \<open>The loop over the batches; a provider error is rethrown.\<close>

fun embedBatches ::
  "embeddings_client \<Rightarrow> js_string list list \<Rightarrow> embedding list \<Rightarrow> error + embedding list"
where
  "embedBatches create [] allEmbeddings = Inr allEmbeddings"
| "embedBatches create (batch # batches) allEmbeddings =
     (case create batch of
        Inl e \<Rightarrow> Inl e
      | Inr embeddings \<Rightarrow> embedBatches create batches (allEmbeddings @ embeddings))"

definition generateEmbeddings ::
  "embeddings_client option \<Rightarrow> js_string list \<Rightarrow> error + embedding list"
where
  "generateEmbeddings client texts =
     (case client of
        None \<Rightarrow> Inl (Error ''Embeddings service not initialized'')
      | Some create \<Rightarrow>
          if length texts = 0 then Inl (Error ''Texts must be a non-empty array'')
          else (let validTexts = filter (\<lambda>text. \<not> isBlank text) texts
                in if length validTexts = 0 then Inl (Error ''No valid texts to embed'')
                   else embedBatches create (batchesFrom 0 validTexts) []))"

text \<open>A sample provider: the vector of a text is its length.\<close>

definition lengthProvider :: embeddings_client where
  "lengthProvider batch = Inr (map (\<lambda>text. [real (length text)]) batch)"

section \<open>Text chunking (EmbeddingsService)\<close>

text \<open>
  \<open>text.match(/[^.!?]+[.!?]+/g)\<close>: a match is a longest run of code units other than
  \<open>.\<close>, \<open>!\<close> and \<open>?\<close>, not empty, together with the longest run of these three marks
  that follows it, not empty either. Marks with no such run before them are skipped, and
  a last run with no mark after it is not matched.
\<close>

definition isTerminator :: "16 word \<Rightarrow> bool" where
  "isTerminator c = (c = 0x2E \<or> c = 0x21 \<or> c = 0x3F)"

function matchSentences :: "js_string \<Rightarrow> js_string list" where
  "matchSentences s =
     (let body = takeWhile (\<lambda>c. \<not> isTerminator c) s;
          rest = dropWhile (\<lambda>c. \<not> isTerminator c) s
      in if rest = [] then []
         else (let marks = takeWhile isTerminator rest;
                   rest' = dropWhile isTerminator rest
               in if body = [] then matchSentences rest'
                  else (body @ marks) # matchSentences rest'))"
  by pat_completeness auto
termination
proof -
  have shorter: "length (dropWhile isTerminator (dropWhile (\<lambda>c. \<not> isTerminator c) s)) < length s"
    if "dropWhile (\<lambda>c. \<not> isTerminator c) s \<noteq> []" for s :: js_string
  proof -
    let ?rest = "dropWhile (\<lambda>c. \<not> isTerminator c) s"
    from that obtain x xs where rest: "?rest = x # xs" by (cases ?rest) auto
    from that have "isTerminator (hd ?rest)" using hd_dropWhile [of "\<lambda>c. \<not> isTerminator c" s] by simp
    with rest have "dropWhile isTerminator ?rest = dropWhile isTerminator xs" by simp
    moreover have "length (dropWhile isTerminator xs) \<le> length xs" by (rule length_dropWhile_le)
    moreover have "length ?rest \<le> length s" by (rule length_dropWhile_le)
    ultimately show ?thesis using rest by simp
  qed
  show ?thesis
    by (relation "measure length") (auto simp: shorter)
qed

declare matchSentences.simps [simp del]

text \<open>
  \<open>text.split(/\s+/)\<close>: the pieces between the longest runs of white space, the empty
  piece before a leading run and after a trailing one included.
\<close>

function splitWhiteSpace :: "js_string \<Rightarrow> js_string list" where
  "splitWhiteSpace s =
     (let word = takeWhile (\<lambda>c. \<not> isWhiteSpace c) s;
          rest = dropWhile (\<lambda>c. \<not> isWhiteSpace c) s
      in if rest = [] then [word]
         else word # splitWhiteSpace (dropWhile isWhiteSpace rest))"
  by pat_completeness auto
termination
proof -
  have shorter: "length (dropWhile isWhiteSpace (dropWhile (\<lambda>c. \<not> isWhiteSpace c) s)) < length s"
    if "dropWhile (\<lambda>c. \<not> isWhiteSpace c) s \<noteq> []" for s :: js_string
  proof -
    let ?rest = "dropWhile (\<lambda>c. \<not> isWhiteSpace c) s"
    from that obtain x xs where rest: "?rest = x # xs" by (cases ?rest) auto
    from that have "isWhiteSpace (hd ?rest)" using hd_dropWhile [of "\<lambda>c. \<not> isWhiteSpace c" s] by simp
    with rest have "dropWhile isWhiteSpace ?rest = dropWhile isWhiteSpace xs" by simp
    moreover have "length (dropWhile isWhiteSpace xs) \<le> length xs" by (rule length_dropWhile_le)
    moreover have "length ?rest \<le> length s" by (rule length_dropWhile_le)
    ultimately show ?thesis using rest by simp
  qed
  show ?thesis
    by (relation "measure length") (auto simp: shorter)
qed

declare splitWhiteSpace.simps [simp del]

text \<open>\<open>Array.prototype.join\<close> with a separator.\<close>

fun joinWith :: "js_string \<Rightarrow> js_string list \<Rightarrow> js_string" where
  "joinWith sep [] = []"
| "joinWith sep [x] = x"
| "joinWith sep (x # y # ys) = x @ sep @ joinWith sep (y # ys)"

text \<open>\<open>Array.prototype.slice(start, end)\<close> on integer arguments.\<close>

definition slice :: "int \<Rightarrow> int \<Rightarrow> 'a list \<Rightarrow> 'a list" where
  "slice start end xs =
     (let len = int (length xs);
          k = (if start < 0 then max (len + start) 0 else min start len);
          final = (if end < 0 then max (len + end) 0 else min end len)
      in take (nat (final - k)) (drop (nat k) xs))"

text \<open>
  \<open>chunkText\<close>. Its \<open>for\<close> loop steps by \<open>chunkSize - overlap\<close>, which nothing keeps
  positive, so the loop may run forever: the model runs it on fuel and \<open>None\<close> is the
  loop that has not ended when the fuel is used up. The field \<open>text\<close> of a chunk is
  \<open>wcText\<close> here and \<open>scText\<close> in sentence mode.
\<close>

record word_chunk =
  wcText :: js_string
  startIndex :: int
  endIndex :: int

fun chunkTextLoop ::
  "nat \<Rightarrow> js_string list \<Rightarrow> int \<Rightarrow> int \<Rightarrow> int \<Rightarrow> word_chunk list \<Rightarrow> word_chunk list option"
where
  "chunkTextLoop 0 words chunkSize overlap i chunks = None"
| "chunkTextLoop (Suc fuel) words chunkSize overlap i chunks =
     (if i < int (length words)
      then (let chunk = joinWith (js '' '') (slice i (i + chunkSize) words)
            in chunkTextLoop fuel words chunkSize overlap (i + (chunkSize - overlap))
                 (if length (trim chunk) > 0
                  then chunks @ [\<lparr>wcText = chunk, startIndex = i,
                                   endIndex = min (i + chunkSize) (int (length words))\<rparr>]
                  else chunks))
      else Some chunks)"

definition chunkText :: "nat \<Rightarrow> js_string \<Rightarrow> int \<Rightarrow> int \<Rightarrow> word_chunk list option" where
  "chunkText fuel text chunkSize overlap =
     (if isBlank text then Some []
      else chunkTextLoop fuel (splitWhiteSpace text) chunkSize overlap 0 [])"

text \<open>
  \<open>chunkBySentences\<close>: the loop over the sentences on the pair of the chunks pushed and
  \<open>currentChunk\<close>, then the last push and the numbering.
\<close>

record sentence_chunk =
  scText :: js_string
  chunkIndex :: nat

fun sentenceLoop ::
  "int \<Rightarrow> js_string list \<Rightarrow> js_string list \<Rightarrow> js_string \<Rightarrow> js_string list \<times> js_string"
where
  "sentenceLoop maxChunkSize [] chunks currentChunk = (chunks, currentChunk)"
| "sentenceLoop maxChunkSize (sentence # sentences) chunks currentChunk =
     (let trimmed = trim sentence
      in if int (length (currentChunk @ js '' '' @ trimmed)) \<le> maxChunkSize
         then sentenceLoop maxChunkSize sentences chunks
                (currentChunk @ (if currentChunk \<noteq> [] then js '' '' else []) @ trimmed)
         else sentenceLoop maxChunkSize sentences
                (if currentChunk \<noteq> [] then chunks @ [currentChunk] else chunks) trimmed)"

definition sentencesOf :: "js_string \<Rightarrow> js_string list" where
  "sentencesOf text = (case matchSentences text of [] \<Rightarrow> [text] | ms \<Rightarrow> ms)"

definition chunkBySentences :: "js_string \<Rightarrow> int \<Rightarrow> sentence_chunk list" where
  "chunkBySentences text maxChunkSize =
     (if isBlank text then []
      else (case sentenceLoop maxChunkSize (sentencesOf text) [] [] of
              (chunks, currentChunk) \<Rightarrow>
                map (\<lambda>(index, chunk). \<lparr>scText = chunk, chunkIndex = index\<rparr>)
                  (enumerate 0 (if currentChunk \<noteq> [] then chunks @ [currentChunk] else chunks))))"



text \<open>
  A group of trimmed sentences that makes one chunk: not empty, with no empty sentence,
  and either within the maximum size once joined by single spaces or a single sentence.
\<close>

definition boundedGroup :: "int \<Rightarrow> js_string list \<Rightarrow> bool" where
  "boundedGroup maxChunkSize g =
     (g \<noteq> [] \<and> (\<forall>x \<in> set g. x \<noteq> [])
      \<and> (int (length (joinWith (js '' '') g)) \<le> maxChunkSize \<or> length g = 1))"

section \<open>The vector store (VectorStoreService)\<close>

text \<open>
  The two tables of the schema, with the columns the service reads and writes, and the
  state of the database as one pooled client sees it: the committed rows, the rows its
  open transaction has inserted and not yet committed (\<open>None\<close> outside a transaction),
  the supply of fresh row ids (the schema draws a UUID per row) and the dimension of the
  \<open>vector\<close> column. A JSON object is the list of its properties.
\<close>

type_synonym json_object = "(js_string \<times> js_string) list"

record document_row =
  d_id :: js_string
  d_source :: js_string
  d_title :: js_string
  d_department :: "js_string option"
  d_category :: "js_string option"
  d_access_level :: "js_string option"

record chunk_row =
  dc_id :: nat
  dc_document_id :: js_string
  dc_chunk_index :: int
  dc_content :: js_string
  dc_embedding :: "embedding option"
  dc_metadata :: json_object

record vector_store =
  documents :: "document_row list"
  document_chunks :: "chunk_row list"
  transaction :: "chunk_row list option"
  nextId :: nat
  vectorDimension :: nat










text \<open>
  An element of the array given to \<open>insertChunks\<close>; a property may be missing. The row
  it becomes, and what keeps the database from refusing it: the embedding is there and
  has the dimension of the column, \<open>chunk_index\<close> and \<open>content\<close> are not null, and the
  document exists.
\<close>

record new_chunk =
  nc_documentId :: js_string
  nc_chunkIndex :: "int option"
  nc_content :: "js_string option"
  nc_embedding :: "embedding option"
  nc_metadata :: "json_object option"

definition insertable :: "vector_store \<Rightarrow> new_chunk \<Rightarrow> bool" where
  "insertable db chunk =
     ((case nc_embedding chunk of None \<Rightarrow> False | Some e \<Rightarrow> length e = vectorDimension db)
      \<and> nc_chunkIndex chunk \<noteq> None \<and> nc_content chunk \<noteq> None
      \<and> list_ex (\<lambda>d. d_id d = nc_documentId chunk) (documents db))"

definition chunkRow :: "nat \<Rightarrow> new_chunk \<Rightarrow> chunk_row" where
  "chunkRow rowId chunk =
     \<lparr>dc_id = rowId,
      dc_document_id = nc_documentId chunk,
      dc_chunk_index = (case nc_chunkIndex chunk of Some i \<Rightarrow> i | None \<Rightarrow> 0),
      dc_content = (case nc_content chunk of Some c \<Rightarrow> c | None \<Rightarrow> []),
      dc_embedding = nc_embedding chunk,
      dc_metadata = (case nc_metadata chunk of Some m \<Rightarrow> m | None \<Rightarrow> [])\<rparr>"

text \<open>
  \<open>client.query\<close> on the \<open>INSERT\<close> statement, with the \<open>join\<close> on the embedding that
  precedes it, and on \<open>BEGIN\<close>, \<open>COMMIT\<close> and \<open>ROLLBACK\<close>. A statement that fails
  stores nothing. The client comes fresh from the pool, so \<open>BEGIN\<close> opens an empty
  transaction.
\<close>

definition queryInsert :: "vector_store \<Rightarrow> new_chunk \<Rightarrow> vector_store \<times> (error + nat)" where
  "queryInsert db chunk =
     (case nc_embedding chunk of
        None \<Rightarrow> (db, Inl (Error ''TypeError: cannot read properties of undefined''))
      | Some e \<Rightarrow>
          if length e \<noteq> vectorDimension db
          then (db, Inl (Error ''different vector dimensions''))
          else if nc_chunkIndex chunk = None \<or> nc_content chunk = None
          then (db, Inl (Error ''null value violates not-null constraint''))
          else if \<not> list_ex (\<lambda>d. d_id d = nc_documentId chunk) (documents db)
          then (db, Inl (Error ''violates foreign key constraint''))
          else (case transaction db of
                  Some pending \<Rightarrow>
                    (db\<lparr>transaction := Some (pending @ [chunkRow (nextId db) chunk]),
                        nextId := Suc (nextId db)\<rparr>, Inr (nextId db))
                | None \<Rightarrow>
                    (db\<lparr>document_chunks := document_chunks db @ [chunkRow (nextId db) chunk],
                        nextId := Suc (nextId db)\<rparr>, Inr (nextId db))))"

definition queryBegin :: "vector_store \<Rightarrow> vector_store" where
  "queryBegin db = db\<lparr>transaction := Some []\<rparr>"

definition queryCommit :: "vector_store \<Rightarrow> vector_store" where
  "queryCommit db =
     (case transaction db of
        None \<Rightarrow> db
      | Some pending \<Rightarrow> db\<lparr>document_chunks := document_chunks db @ pending, transaction := None\<rparr>)"

definition queryRollback :: "vector_store \<Rightarrow> vector_store" where
  "queryRollback db = db\<lparr>transaction := None\<rparr>"

text \<open>\<open>insertChunks\<close>: the loop inside the transaction, then commit, or rollback and rethrow.\<close>

fun insertLoop :: "vector_store \<Rightarrow> new_chunk list \<Rightarrow> nat list \<Rightarrow> vector_store \<times> (error + nat list)" where
  "insertLoop db [] insertedIds = (db, Inr insertedIds)"
| "insertLoop db (chunk # chunks) insertedIds =
     (case queryInsert db chunk of
        (db', Inl e) \<Rightarrow> (db', Inl e)
      | (db', Inr rowId) \<Rightarrow> insertLoop db' chunks (insertedIds @ [rowId]))"

definition insertChunks :: "vector_store \<Rightarrow> new_chunk list \<Rightarrow> vector_store \<times> (error + nat list)" where
  "insertChunks db chunks =
     (case insertLoop (queryBegin db) chunks [] of
        (db', Inl e) \<Rightarrow> (queryRollback db', Inl e)
      | (db', Inr insertedIds) \<Rightarrow> (queryCommit db', Inr insertedIds))"


definition sampleStore :: vector_store where
  "sampleStore =
     \<lparr>documents =
        [\<lparr>d_id = js ''d1'', d_source = js ''manual'', d_title = js ''Opening hours'',
          d_department = None, d_category = Some (js ''faq''),
          d_access_level = Some (js ''public'')\<rparr>,
         \<lparr>d_id = js ''d2'', d_source = js ''manual'', d_title = js ''Salaries'',
          d_department = Some (js ''hr''), d_category = Some (js ''policy''),
          d_access_level = Some (js ''internal'')\<rparr>],
      document_chunks =
        [\<lparr>dc_id = 1, dc_document_id = js ''d1'', dc_chunk_index = 0, dc_content = js ''a'',
          dc_embedding = Some [0.8], dc_metadata = []\<rparr>,
         \<lparr>dc_id = 2, dc_document_id = js ''d1'', dc_chunk_index = 1, dc_content = js ''b'',
          dc_embedding = Some [0.2], dc_metadata = []\<rparr>,
         \<lparr>dc_id = 3, dc_document_id = js ''d1'', dc_chunk_index = 2, dc_content = js ''c'',
          dc_embedding = Some [0.9], dc_metadata = []\<rparr>,
         \<lparr>dc_id = 4, dc_document_id = js ''d2'', dc_chunk_index = 0, dc_content = js ''d'',
          dc_embedding = Some [1], dc_metadata = []\<rparr>],
      transaction = None,
      nextId = 5,
      vectorDimension = 1\<rparr>"



definition goodChunk :: new_chunk where
  "goodChunk = \<lparr>nc_documentId = js ''d1'', nc_chunkIndex = Some 3, nc_content = Some (js ''e''),
                 nc_embedding = Some [0.5], nc_metadata = None\<rparr>"

definition malformedChunk :: new_chunk where
  "malformedChunk = goodChunk\<lparr>nc_embedding := Some [0.5, 0.5]\<rparr>"

section \<open>Indexing a document (RAGService)\<close>





section \<open>Indexing a Drive folder (DriveService)\<close>
























text \<open>
  The code units that occur in a keyword of \<open>detectIntent\<close> or in a restricted term of
  \<open>validateQuery\<close>.
\<close>

definition relevantUnits :: "16 word set" where
  "relevantUnits = set (concat (concat (map snd intents) @ restrictedCategories))"

section \<open>Substring search\<close>

lemma startsWith_iff: "startsWith s k \<longleftrightarrow> (\<exists>suf. s = k @ suf)"
  by (induction s k rule: startsWith.induct) auto

lemma includes_iff: "str_includes s k \<longleftrightarrow> (\<exists>pre suf. s = pre @ k @ suf)"
proof (induction s)
  case Nil
  show ?case by (simp add: startsWith_iff)
next
  case (Cons c cs)
  show ?case
  proof
    assume "str_includes (c # cs) k"
    then consider "startsWith (c # cs) k" | "str_includes cs k" by auto
    then show "\<exists>pre suf. c # cs = pre @ k @ suf"
    proof cases
      case 1
      then obtain suf where "c # cs = k @ suf" by (auto simp: startsWith_iff)
      then have "c # cs = [] @ k @ suf" by simp
      then show ?thesis by blast
    next
      case 2
      with Cons obtain pre suf where "cs = pre @ k @ suf" by blast
      then have "c # cs = (c # pre) @ k @ suf" by simp
      then show ?thesis by blast
    qed
  next
    assume "\<exists>pre suf. c # cs = pre @ k @ suf"
    then obtain pre suf where eq: "c # cs = pre @ k @ suf" by blast
    show "str_includes (c # cs) k"
    proof (cases pre)
      case Nil
      with eq have "startsWith (c # cs) k" by (auto simp: startsWith_iff simp del: startsWith.simps)
      then show ?thesis by simp
    next
      case (Cons p ps)
      with eq have "cs = ps @ k @ suf" by simp
      with Cons.IH have "str_includes cs k" by blast
      then show ?thesis by simp
    qed
  qed
qed

section \<open>The case mapping\<close>

text \<open>
  A block of code units of which none occurs in a keyword separates what stands before
  it from what stands after it: a keyword is found across the block exactly when it is
  found on one side. Hence two case mappings that work code unit by code unit find the
  same keywords when they agree wherever either produces a code unit of a keyword, and
  so does every such mapping that agrees with the model on the code units the model
  lowers: the part of the Unicode mapping that the model leaves out changes neither the
  match counts of \<open>detectIntent\<close> nor the test of \<open>validateQuery\<close>.
\<close>

lemma includes_across_block:
  assumes b: "b \<noteq> []" "set b \<inter> K = {}" and k: "set k \<subseteq> K" "k \<noteq> []"
  shows "str_includes (xs @ b @ ys) k \<longleftrightarrow> str_includes xs k \<or> str_includes ys k"
proof
  assume "str_includes xs k \<or> str_includes ys k"
  then show "str_includes (xs @ b @ ys) k"
  proof
    assume "str_includes xs k"
    then obtain p q where "xs = p @ k @ q" unfolding includes_iff by blast
    then have "xs @ b @ ys = p @ k @ (q @ b @ ys)" by simp
    then show ?thesis unfolding includes_iff by blast
  next
    assume "str_includes ys k"
    then obtain p q where "ys = p @ k @ q" unfolding includes_iff by blast
    then have "xs @ b @ ys = (xs @ b @ p) @ k @ q" by simp
    then show ?thesis unfolding includes_iff by blast
  qed
next
  assume "str_includes (xs @ b @ ys) k"
  then obtain p q where eq: "xs @ (b @ ys) = (p @ k) @ q" unfolding includes_iff by auto
  have clash: False if "us \<noteq> []" "b @ ys' = us @ q'" "vs @ us = k" for us vs ys' q'
  proof -
    from that(1,2) b(1) have "hd us = hd b" by (cases us; cases b) auto
    moreover from that(1,3) have "hd us \<in> set k" by (cases us) auto
    moreover from b(1) have "hd b \<in> set b" by simp
    ultimately show False using b(2) k(1) by auto
  qed
  have clash2: False if "ws \<noteq> []" "b = vs @ ws" "ws @ ys' = k @ q'" for ws vs ys' q'
  proof -
    from that(1,3) k(2) have "hd ws = hd k" by (cases ws; cases k) auto
    moreover from that(1,2) have "hd ws \<in> set b" by (cases ws) auto
    moreover from k(2) have "hd k \<in> set k" by simp
    ultimately show False using b(2) k(1) by auto
  qed
  from eq consider us where "xs = (p @ k) @ us"
    | us where "xs @ us = p @ k" "b @ ys = us @ q"
    unfolding append_eq_append_conv2 by blast
  then show "str_includes xs k \<or> str_includes ys k"
  proof cases
    case 1
    then have "xs = p @ k @ us" by simp
    then show ?thesis unfolding includes_iff by blast
  next
    case 2
    from 2(1) consider vs where "xs = p @ vs" "vs @ us = k"
      | vs where "xs @ vs = p" "us = vs @ k"
      unfolding append_eq_append_conv2 by blast
    then show ?thesis
    proof cases
      case 1
      show ?thesis
      proof (cases "us = []")
        case True
        with 1 have "xs = p @ k @ []" by simp
        then show ?thesis unfolding includes_iff by blast
      next
        case False
        from clash [OF False 2(2) 1(2)] show ?thesis ..
      qed
    next
      case inner: 2
      with 2(2) have "b @ ys = vs @ (k @ q)" by simp
      then consider ws where "b = vs @ ws" "ws @ ys = k @ q"
        | ws where "b @ ws = vs" "ys = ws @ k @ q"
        unfolding append_eq_append_conv2 by blast
      then show ?thesis
      proof cases
        case 1
        show ?thesis
        proof (cases "ws = []")
          case True
          with 1 have "ys = [] @ k @ q" by simp
          then show ?thesis unfolding includes_iff by blast
        next
          case False
          from clash2 [OF False 1] show ?thesis ..
        qed
      next
        case 2
        then show ?thesis unfolding includes_iff by blast
      qed
    qed
  qed
qed

lemma includes_case_mapping:
  assumes "\<forall>u \<in> set s. f u = g u
             \<or> (f u \<noteq> [] \<and> g u \<noteq> [] \<and> set (f u) \<inter> K = {} \<and> set (g u) \<inter> K = {})"
    and k: "set k \<subseteq> K" "k \<noteq> []"
  shows "str_includes (pre @ concat (map f s)) k \<longleftrightarrow> str_includes (pre @ concat (map g s)) k"
  using assms(1)
proof (induction s arbitrary: pre)
  case Nil
  show ?case by simp
next
  case (Cons u s)
  from Cons.prems have rest: "\<forall>u \<in> set s. f u = g u
             \<or> (f u \<noteq> [] \<and> g u \<noteq> [] \<and> set (f u) \<inter> K = {} \<and> set (g u) \<inter> K = {})"
    by simp
  show ?case
  proof (cases "f u = g u")
    case True
    from Cons.IH [OF rest, of "pre @ g u"] True show ?thesis by simp
  next
    case False
    with Cons.prems have d: "f u \<noteq> []" "g u \<noteq> []" "set (f u) \<inter> K = {}" "set (g u) \<inter> K = {}"
      by auto
    from Cons.IH [OF rest, of "[]"]
    have tail: "str_includes (concat (map f s)) k \<longleftrightarrow> str_includes (concat (map g s)) k" by simp
    have "str_includes (pre @ f u @ concat (map f s)) k
        \<longleftrightarrow> str_includes pre k \<or> str_includes (concat (map f s)) k"
      by (rule includes_across_block [OF d(1,3) k])
    moreover have "str_includes (pre @ g u @ concat (map g s)) k
        \<longleftrightarrow> str_includes pre k \<or> str_includes (concat (map g s)) k"
      by (rule includes_across_block [OF d(2,4) k])
    ultimately show ?thesis using tail by simp
  qed
qed

lemma case_mapping_adequate:
  assumes "\<forall>u. f u = lowerUnit u
             \<or> (f u \<noteq> [] \<and> set (f u) \<inter> relevantUnits = {}
                 \<and> set (lowerUnit u) \<inter> relevantUnits = {})"
  shows "map (\<lambda>(i, kws). countMatches (concat (map f utterance)) kws) intents
           = matchCounts utterance"
    and "list_ex (str_includes (concat (map f query))) restrictedCategories
           = list_ex (str_includes (toLowerCase query)) restrictedCategories"
proof -
  have ne: "lowerUnit u \<noteq> []" for u by (simp add: lowerUnit_def)
  have same: "str_includes (concat (map f s)) k \<longleftrightarrow> str_includes (toLowerCase s) k"
    if "set k \<subseteq> relevantUnits" "k \<noteq> []" for s k
    using includes_case_mapping [of s f lowerUnit relevantUnits k "[]"] assms ne that
    by (auto simp: toLowerCase_def)
  have kw: "set k \<subseteq> relevantUnits \<and> k \<noteq> []" if "(i, kws) \<in> set intents" "k \<in> set kws" for i kws k
  proof -
    from that have "k \<in> set (concat (map snd intents))" by force
    moreover have "[] \<notin> set (concat (map snd intents))" by (simp add: intents_def js_def)
    ultimately show ?thesis by (auto simp: relevantUnits_def)
  qed
  have rc: "set k \<subseteq> relevantUnits \<and> k \<noteq> []" if "k \<in> set restrictedCategories" for k
    using that by (auto simp: relevantUnits_def restrictedCategories_def js_def)
  have "countMatches (concat (map f utterance)) kws = countMatches (toLowerCase utterance) kws"
    if "(i, kws) \<in> set intents" for i kws
    unfolding countMatches_def
    by (rule arg_cong [where f = length], rule filter_cong [OF refl]) (use kw [OF that] same in blast)
  then show "map (\<lambda>(i, kws). countMatches (concat (map f utterance)) kws) intents
           = matchCounts utterance"
    unfolding matchCounts_def by (intro map_cong refl) auto
  show "list_ex (str_includes (concat (map f query))) restrictedCategories
           = list_ex (str_includes (toLowerCase query)) restrictedCategories"
    unfolding list_ex_iff using rc same by blast
qed

section \<open>The intent classifier\<close>

lemma detectLoop_spec:
  "detectLoop lt es (d0, m0) = (d, m) \<Longrightarrow>
     m0 \<le> m \<and> (\<forall>k<length es. countMatches lt (snd (es ! k)) \<le> m) \<and>
     (if m = m0 then d = d0
      else \<exists>k<length es. d = fst (es ! k) \<and> countMatches lt (snd (es ! k)) = m
             \<and> (\<forall>j<k. countMatches lt (snd (es ! j)) < m))"
proof (induction es arbitrary: d0 m0)
  case Nil
  then show ?case by simp
next
  case (Cons e rest)
  obtain i kws where e: "e = (i, kws)" by (cases e)
  let ?c = "countMatches lt kws"
  show ?case
  proof (cases "?c > m0")
    case True
    with Cons.prems e have run: "detectLoop lt rest (i, ?c) = (d, m)" by simp
    note ih = Cons.IH [OF run]
    from ih have le: "?c \<le> m" by simp
    have bound: "\<forall>k<length (e # rest). countMatches lt (snd ((e # rest) ! k)) \<le> m"
      using ih le e by (auto simp: nth_Cons split: nat.splits)
    have neq: "m \<noteq> m0" using le True by simp
    have pick: "\<exists>k<length (e # rest). d = fst ((e # rest) ! k)
        \<and> countMatches lt (snd ((e # rest) ! k)) = m
        \<and> (\<forall>j<k. countMatches lt (snd ((e # rest) ! j)) < m)"
    proof (cases "m = ?c")
      case True
      with ih have "d = i" by simp
      with True e show ?thesis by (intro exI [of _ 0]) simp
    next
      case False
      with ih obtain k where k: "k < length rest" "d = fst (rest ! k)"
        "countMatches lt (snd (rest ! k)) = m"
        "\<forall>j<k. countMatches lt (snd (rest ! j)) < m" by auto
      from False le have "?c < m" by simp
      with k e show ?thesis
        by (intro exI [of _ "Suc k"]) (auto simp: nth_Cons split: nat.splits)
    qed
    from True le bound neq pick show ?thesis by simp
  next
    case False
    with Cons.prems e have run: "detectLoop lt rest (d0, m0) = (d, m)" by simp
    note ih = Cons.IH [OF run]
    from ih have le: "m0 \<le> m" by simp
    with False have cle: "?c \<le> m" by simp
    have bound: "\<forall>k<length (e # rest). countMatches lt (snd ((e # rest) ! k)) \<le> m"
      using ih cle e by (auto simp: nth_Cons split: nat.splits)
    show ?thesis
    proof (cases "m = m0")
      case True
      with ih le bound show ?thesis by simp
    next
      case neq: False
      with ih obtain k where k: "k < length rest" "d = fst (rest ! k)"
        "countMatches lt (snd (rest ! k)) = m"
        "\<forall>j<k. countMatches lt (snd (rest ! j)) < m" by auto
      from neq le False have "?c < m" by simp
      with k e have "\<exists>k<length (e # rest). d = fst ((e # rest) ! k)
        \<and> countMatches lt (snd ((e # rest) ! k)) = m
        \<and> (\<forall>j<k. countMatches lt (snd ((e # rest) ! j)) < m)"
        by (intro exI [of _ "Suc k"]) (auto simp: nth_Cons split: nat.splits)
      with neq le bound show ?thesis by simp
    qed
  qed
qed


lemmas intent_eval = detectIntent_def matchCounts_def intents_def countMatches_def js_def
  toLowerCase_def lowerUnit_def

text \<open>
  C3, as the code has it. The utterance is lowercased and, per intent, the keywords that
  occur in it as substrings are counted. With no match at all the result is
  \<open>general_inquiry\<close> with confidence 0. Otherwise the intent selected is the one with the
  highest count, and among intents with that same count the one declared first in the
  keyword table (not the alphabetically first); the confidence is
  \<open>min (count * 0.3) 0.95\<close>.
\<close>

theorem detectIntent_declaration_order:
  "((\<forall>c \<in> set (matchCounts text). c = 0) \<longrightarrow>
      name (detectIntent text) = js ''general_inquiry'' \<and> confidence (detectIntent text) = 0)
   \<and> (k < length intents \<and> 0 < matchCounts text ! k
        \<and> (\<forall>c \<in> set (matchCounts text). c \<le> matchCounts text ! k)
        \<and> (\<forall>c \<in> set (take k (matchCounts text)). c < matchCounts text ! k) \<longrightarrow>
        name (detectIntent text) = fst (intents ! k)
        \<and> confidence (detectIntent text) = min (real (matchCounts text ! k) * 0.3) 0.95)"
proof -
  let ?lt = "toLowerCase text"
  obtain d m where run: "detectLoop ?lt intents (js ''general_inquiry'', 0) = (d, m)"
    by (cases "detectLoop ?lt intents (js ''general_inquiry'', 0)")
  have nm: "name (detectIntent text) = d"
    and cf: "confidence (detectIntent text) = min (real m * 0.3) 0.95"
    using run by (simp_all add: detectIntent_def)
  have cnt: "matchCounts text ! j = countMatches ?lt (snd (intents ! j))"
    if "j < length intents" for j
    using that by (simp add: matchCounts_def case_prod_unfold)
  have len: "length (matchCounts text) = length intents"
    by (simp add: matchCounts_def)
  note spec = detectLoop_spec [OF run]
  from spec have bound: "\<forall>j<length intents. matchCounts text ! j \<le> m"
    by (simp add: cnt)
  have pick: "\<exists>j<length intents. d = fst (intents ! j) \<and> matchCounts text ! j = m
      \<and> (\<forall>i<j. matchCounts text ! i < m)" if "m \<noteq> 0"
  proof -
    from that spec obtain j where j: "j < length intents" "d = fst (intents ! j)"
      "countMatches ?lt (snd (intents ! j)) = m"
      "\<forall>i<j. countMatches ?lt (snd (intents ! i)) < m" by auto
    then have "\<forall>i<j. matchCounts text ! i < m" by (simp add: cnt)
    with j show ?thesis by (auto simp: cnt)
  qed
  have none: "name (detectIntent text) = js ''general_inquiry'' \<and> confidence (detectIntent text) = 0"
    if zero: "\<forall>c \<in> set (matchCounts text). c = 0"
  proof -
    have "m = 0"
    proof (rule ccontr)
      assume "m \<noteq> 0"
      from pick [OF this] obtain j where "j < length intents" "matchCounts text ! j = m" by blast
      with zero len have "m = 0" by (metis nth_mem)
      with \<open>m \<noteq> 0\<close> show False by simp
    qed
    with spec nm cf show ?thesis by simp
  qed
  have some: "name (detectIntent text) = fst (intents ! k)
        \<and> confidence (detectIntent text) = min (real (matchCounts text ! k) * 0.3) 0.95"
    if k: "k < length intents" and pos: "0 < matchCounts text ! k"
      and top: "\<forall>c \<in> set (matchCounts text). c \<le> matchCounts text ! k"
      and first: "\<forall>c \<in> set (take k (matchCounts text)). c < matchCounts text ! k"
  proof -
    from bound k pos have "m \<noteq> 0" by auto
    from pick [OF this] obtain k' where k': "k' < length intents" "d = fst (intents ! k')"
      "matchCounts text ! k' = m" "\<forall>i<k'. matchCounts text ! i < m" by blast
    from k'(1) len have "matchCounts text ! k' \<in> set (matchCounts text)"
      by (intro nth_mem) simp
    with top k'(3) have "m \<le> matchCounts text ! k" by auto
    with bound k have eq: "matchCounts text ! k = m" by (simp add: le_antisym)
    have "k' = k"
    proof (rule ccontr)
      assume "k' \<noteq> k"
      then consider "k' < k" | "k < k'" by arith
      then show False
      proof cases
        case 1
        with k len have "matchCounts text ! k' \<in> set (take k (matchCounts text))"
          by (auto simp: in_set_conv_nth intro!: exI [of _ k'])
        with first k' eq show False by auto
      next
        case 2
        with k' eq show False by auto
      qed
    qed
    with k' nm cf eq show ?thesis by simp
  qed
  from none some show ?thesis by blast
qed

theorem detectIntent_declaration_order_witness:
  "name (detectIntent (js ''what are your opening hours'')) = js ''business_hours''
   \<and> confidence (detectIntent (js ''what are your opening hours'')) = 0.6
   \<and> name (detectIntent (js ''hello there'')) = js ''general_inquiry''
   \<and> confidence (detectIntent (js ''hello there'')) = 0
   \<and> name (detectIntent (js ''R'' @ [0xC9] @ js ''PARATION'')) = js ''services''
   \<and> confidence (detectIntent (js ''R'' @ [0xC9] @ js ''PARATION'')) = 0.3"
proof -
  have c1: "matchCounts (js ''what are your opening hours'') = [2, 0, 0, 0, 0, 0, 0, 0]"
    by (simp add: intent_eval)
  have c2: "matchCounts (js ''hello there'') = [0, 0, 0, 0, 0, 0, 0, 0]"
    by (simp add: intent_eval)
  have c3: "matchCounts (js ''R'' @ [0xC9] @ js ''PARATION'') = [0, 1, 0, 0, 0, 0, 0, 0]"
    by (simp add: intent_eval)
  have l: "length intents = 8" by (simp add: intents_def)
  have f: "fst (intents ! 0) = js ''business_hours''" "fst (intents ! 1) = js ''services''"
    by (simp_all add: intents_def)
  from detectIntent_declaration_order [of "js ''what are your opening hours''" 0]
  have "name (detectIntent (js ''what are your opening hours'')) = fst (intents ! 0)
    \<and> confidence (detectIntent (js ''what are your opening hours''))
        = min (real (matchCounts (js ''what are your opening hours'') ! 0) * 0.3) 0.95"
    unfolding c1 l by simp
  moreover from detectIntent_declaration_order [of "js ''hello there''" 0]
  have "name (detectIntent (js ''hello there'')) = js ''general_inquiry''
    \<and> confidence (detectIntent (js ''hello there'')) = 0"
    unfolding c2 by simp
  moreover from detectIntent_declaration_order [of "js ''R'' @ [0xC9] @ js ''PARATION''" 1]
  have "name (detectIntent (js ''R'' @ [0xC9] @ js ''PARATION'')) = fst (intents ! 1)
    \<and> confidence (detectIntent (js ''R'' @ [0xC9] @ js ''PARATION''))
        = min (real (matchCounts (js ''R'' @ [0xC9] @ js ''PARATION'') ! 1) * 0.3) 0.95"
    unfolding c3 l by simp
  ultimately show ?thesis unfolding c1 c3 f by simp
qed

text \<open>
  C3 as the specification words it, with ties broken by alphabetical order of the intent
  name, fails: in \<open>open agent\<close> the intents \<open>business_hours\<close> and \<open>agent_request\<close> both
  have one match, \<open>agent_request\<close> comes first alphabetically, and the code selects
  \<open>business_hours\<close>, which is declared first.
\<close>

theorem detectIntent_alphabetical_tie_counterexample:
  "matchCounts (js ''open agent'') = [1, 0, 0, 0, 0, 0, 0, 1]
   \<and> fst (intents ! 0) = js ''business_hours'' \<and> fst (intents ! 7) = js ''agent_request''
   \<and> js ''agent_request'' < js ''business_hours''
   \<and> name (detectIntent (js ''open agent'')) = js ''business_hours''
   \<and> name (detectIntent (js ''open agent'')) \<noteq> js ''agent_request''"
  by (simp add: intent_eval)

section \<open>Query validation\<close>

text \<open>
  C8: \<open>validateQuery\<close> rejects a query exactly when its lowercased text contains one of
  the restricted terms as a literal substring and the caller has no elevated access;
  every other query is accepted.
\<close>

theorem validateQuery_rejects_iff:
  "valid (validateQuery query userContext) \<longleftrightarrow>
     \<not> ((\<exists>cat \<in> set restrictedCategories. \<exists>pre suf. toLowerCase query = pre @ cat @ suf)
        \<and> \<not> hasHighAccess userContext)"
  by (auto simp: validateQuery_def list_ex_iff includes_iff)

theorem validateQuery_rejects_iff_witness:
  "\<not> valid (validateQuery (js ''Show the CONFIDENTIAL payroll'') \<lparr>hasHighAccess = False, userId = None\<rparr>)
   \<and> valid (validateQuery (js ''Show the CONFIDENTIAL payroll'') \<lparr>hasHighAccess = True, userId = None\<rparr>)
   \<and> valid (validateQuery (js ''opening hours'') \<lparr>hasHighAccess = False, userId = None\<rparr>)"
proof -
  have "str_includes (toLowerCase (js ''Show the CONFIDENTIAL payroll'')) (js ''confidential'')"
    by (simp add: js_def toLowerCase_def lowerUnit_def)
  then have hit: "\<exists>cat \<in> set restrictedCategories.
      \<exists>pre suf. toLowerCase (js ''Show the CONFIDENTIAL payroll'') = pre @ cat @ suf"
    unfolding includes_iff restrictedCategories_def by auto
  have "\<not> str_includes (toLowerCase (js ''opening hours'')) (js ''confidential'')"
       "\<not> str_includes (toLowerCase (js ''opening hours'')) (js ''internal'')"
    by (simp_all add: js_def toLowerCase_def lowerUnit_def)
  then have miss: "\<not> (\<exists>cat \<in> set restrictedCategories.
      \<exists>pre suf. toLowerCase (js ''opening hours'') = pre @ cat @ suf)"
    unfolding includes_iff restrictedCategories_def by auto
  show ?thesis
    using hit miss
      validateQuery_rejects_iff [of "js ''Show the CONFIDENTIAL payroll''" "\<lparr>hasHighAccess = False, userId = None\<rparr>"]
      validateQuery_rejects_iff [of "js ''Show the CONFIDENTIAL payroll''" "\<lparr>hasHighAccess = True, userId = None\<rparr>"]
      validateQuery_rejects_iff [of "js ''opening hours''" "\<lparr>hasHighAccess = False, userId = None\<rparr>"]
    by simp
qed

section \<open>Conversation state\<close>

lemma processCall_others:
  "other \<noteq> callId \<Longrightarrow>
   conversationHistory (fst (processCall svc env callId userInput ctx)) other
     = conversationHistory svc other"
  by (simp add: processCall_def Let_def split: sum.splits)

lemma processCall_failed_turn:
  "processCall svc env callId userInput ctx = (svc', Inl e) \<Longrightarrow>
   conversationHistory svc' callId =
     Some ((case conversationHistory svc callId of
              None \<Rightarrow> [\<lparr>role = js ''system'', content = systemPrompt svc\<rparr>]
            | Some messages \<Rightarrow> messages)
           @ [\<lparr>role = js ''user'', content = userInput\<rparr>])"
  by (auto simp: processCall_def Let_def split: sum.splits)

text \<open>
  C9, as the code has it: the conversation state is keyed by call id and does not leak
  across calls. A turn that completes, that is a call of \<open>processCall\<close> that returns
  its result, leaves the history of its call id as the history it found (or, when the
  call id had none, the system prompt alone) followed by exactly one user and one
  assistant message. The history of every other call id is the same after
  \<open>processCall\<close>, whatever its outcome, and after \<open>clearHistory\<close>, which removes the
  entry of its own call id.
\<close>

theorem conversation_state_per_call:
  "(processCall svc env callId userInput ctx = (svc', Inr r) \<longrightarrow>
      conversationHistory svc' callId =
        Some ((case conversationHistory svc callId of
                 None \<Rightarrow> [\<lparr>role = js ''system'', content = systemPrompt svc\<rparr>]
               | Some messages \<Rightarrow> messages)
              @ [\<lparr>role = js ''user'', content = userInput\<rparr>,
                 \<lparr>role = js ''assistant'', content = resResponse r\<rparr>]))
   \<and> (other \<noteq> callId \<longrightarrow>
        conversationHistory (fst (processCall svc env callId userInput ctx)) other
          = conversationHistory svc other
        \<and> conversationHistory (clearHistory svc callId) other = conversationHistory svc other)
   \<and> conversationHistory (clearHistory svc callId) callId = None"
  by (auto simp: processCall_def clearHistory_def Let_def split: sum.splits)

theorem conversation_state_per_call_witness:
  "conversationHistory (fst (processCall demoSvc demoEnv (js ''c1'') (js ''hi'') noContext)) (js ''c1'')
     = Some [\<lparr>role = js ''system'', content = js ''sys''\<rparr>,
             \<lparr>role = js ''user'', content = js ''hi''\<rparr>,
             \<lparr>role = js ''assistant'', content = js ''ok''\<rparr>]
   \<and> conversationHistory (fst (processCall demoSvc demoEnv (js ''c1'') (js ''hi'') noContext)) (js ''c2'')
       = Some [\<lparr>role = js ''system'', content = js ''sys''\<rparr>]
   \<and> conversationHistory (clearHistory demoSvc (js ''c1'')) (js ''c2'')
       = Some [\<lparr>role = js ''system'', content = js ''sys''\<rparr>]
   \<and> conversationHistory (clearHistory demoSvc (js ''c2'')) (js ''c2'') = None"
proof -
  have "\<exists>svc' r. processCall demoSvc demoEnv (js ''c1'') (js ''hi'') noContext = (svc', Inr r)
          \<and> resResponse r = js ''ok''"
    by (simp add: processCall_def demoEnv_def Let_def)
  then obtain svc' r
    where run: "processCall demoSvc demoEnv (js ''c1'') (js ''hi'') noContext = (svc', Inr r)"
      and reply: "resResponse r = js ''ok''" by blast
  have ne: "js ''c2'' \<noteq> js ''c1''" "js ''c1'' \<noteq> js ''c2''" by (simp_all add: js_def)
  have old: "conversationHistory demoSvc (js ''c1'') = None"
    "conversationHistory demoSvc (js ''c2'') = Some [\<lparr>role = js ''system'', content = js ''sys''\<rparr>]"
    "systemPrompt demoSvc = js ''sys''"
    using ne by (simp_all add: demoSvc_def)
  show ?thesis
    using conversation_state_per_call
            [of demoSvc demoEnv "js ''c1''" "js ''hi''" noContext svc' r "js ''c2''"]
          conversation_state_per_call
            [of demoSvc demoEnv "js ''c2''" "js ''hi''" noContext svc' r "js ''c1''"]
          run reply ne old
    by simp
qed

text \<open>
  C9 as the specification words it, for every turn, fails: when the language model
  throws, \<open>processCall\<close> rethrows after the user message was pushed, and the history
  of the call holds the system prompt and the user message with no assistant message.
\<close>

theorem conversation_state_failed_turn_counterexample:
  "snd (processCall demoSvc failingModelEnv (js ''c1'') (js ''hi'') noContext)
     = Inl (Error ''OpenAI service not initialized'')
   \<and> conversationHistory (fst (processCall demoSvc failingModelEnv (js ''c1'') (js ''hi'') noContext))
       (js ''c1'')
     = Some [\<lparr>role = js ''system'', content = js ''sys''\<rparr>,
             \<lparr>role = js ''user'', content = js ''hi''\<rparr>]"
proof -
  have ne: "js ''c1'' \<noteq> js ''c2''" by (simp add: js_def)
  then have old: "conversationHistory demoSvc (js ''c1'') = None"
    "systemPrompt demoSvc = js ''sys''"
    by (simp_all add: demoSvc_def)
  show ?thesis
    by (simp add: processCall_def failingModelEnv_def demoEnv_def Let_def old)
qed

section \<open>The handoff policy\<close>

lemma detectLoop_name:
  "fst (detectLoop lt es st) \<in> insert (fst st) (fst ` set es)"
proof (induction es arbitrary: st)
  case Nil
  show ?case by simp
next
  case (Cons e es)
  obtain i kws where e: "e = (i, kws)" by (cases e)
  obtain d m where st: "st = (d, m)" by (cases st)
  show ?case
    using Cons.IH [of "(i, countMatches lt kws)"] Cons.IH [of "(d, m)"]
    by (auto simp: e st Let_def)
qed

lemma detectIntent_name:
  "name (detectIntent utterance) \<in> insert (js ''general_inquiry'') (fst ` set intents)"
  using detectLoop_name [of "toLowerCase utterance" intents "(js ''general_inquiry'', 0)"]
  by (cases "detectLoop (toLowerCase utterance) intents (js ''general_inquiry'', 0)")
     (simp add: detectIntent_def)

lemma detectIntent_reason:
  "getHandoffReason (detectIntent utterance) response =
     (if name (detectIntent utterance) = js ''agent_request'' then js ''Customer requested human agent''
      else if name (detectIntent utterance) = js ''technical_support''
      then js ''Technical support requires specialist''
      else js ''Customer needs personalized assistance'')"
proof -
  have "name (detectIntent utterance) \<in> set (map js [''general_inquiry'', ''business_hours'', ''services'', ''appointment'',
     ''technical_support'', ''pricing'', ''location'', ''contact'', ''agent_request''])"
    using detectIntent_name [of utterance] by (simp add: intents_def)
  then show ?thesis
    by (auto simp: getHandoffReason_def reasons_def js_def)
qed

lemma processCall_result:
  assumes "processCall svc env callId userInput ctx = (svc', Inr r)"
  shows "resIntent r = name (detectIntent userInput)"
    and "needsHandoff r = shouldHandoff (openAtDecision env) (detectIntent userInput) (resResponse r)
           (gatherContext env (detectIntent userInput) userInput ctx)"
    and "handoffReason r = (if needsHandoff r
           then Some (getHandoffReason (detectIntent userInput) (resResponse r)) else None)"
  using assms by (auto simp: processCall_def Let_def split: sum.splits)

lemma getHandoffReason_agent_request:
  "name i = js ''agent_request'' \<Longrightarrow>
   getHandoffReason i response = js ''Customer requested human agent''"
  by (simp add: getHandoffReason_def reasons_def)

lemma shouldHandoff_agent_request:
  "name i = js ''agent_request'' \<Longrightarrow> shouldHandoff isOpen i response toolResults"
  by (simp add: shouldHandoff_def)

text \<open>
  C2: when the intent is \<open>agent_request\<close>, \<open>shouldHandoff\<close> answers true at its first
  rule, whatever the confidence, the clock and the tool results are, and the reason
  reported is the one of the explicit request, never the one of low confidence. The same
  holds of the result of a whole turn whose utterance is classified \<open>agent_request\<close>.
\<close>

theorem agent_request_explicit_reason:
  "(name i = js ''agent_request'' \<longrightarrow>
      shouldHandoff isOpen i response toolResults
      \<and> getHandoffReason i response = js ''Customer requested human agent''
      \<and> getHandoffReason i response \<noteq> js ''Unable to understand request clearly'')
   \<and> (name (detectIntent userInput) = js ''agent_request''
        \<and> processCall svc env callId userInput ctx = (svc', Inr r) \<longrightarrow>
      needsHandoff r \<and> handoffReason r = Some (js ''Customer requested human agent''))"
proof -
  have differ: "js ''Customer requested human agent'' \<noteq> js ''Unable to understand request clearly''"
    by (simp add: js_def)
  have first: "shouldHandoff isOpen i response toolResults
      \<and> getHandoffReason i response = js ''Customer requested human agent''
      \<and> getHandoffReason i response \<noteq> js ''Unable to understand request clearly''"
    if "name i = js ''agent_request''"
    using that differ
    by (simp add: getHandoffReason_agent_request shouldHandoff_agent_request)
  have turn: "needsHandoff r \<and> handoffReason r = Some (js ''Customer requested human agent'')"
    if "name (detectIntent userInput) = js ''agent_request''"
      "processCall svc env callId userInput ctx = (svc', Inr r)"
    using that processCall_result [OF that(2)]
    by (simp add: getHandoffReason_agent_request shouldHandoff_agent_request)
  from first turn show ?thesis by blast
qed

theorem agent_request_explicit_reason_witness:
  "confidence \<lparr>name = js ''agent_request'', confidence = 0.1, intentKeywords = []\<rparr> < 0.3
   \<and> shouldHandoff False \<lparr>name = js ''agent_request'', confidence = 0.1, intentKeywords = []\<rparr> () []
   \<and> getHandoffReason \<lparr>name = js ''agent_request'', confidence = 0.1, intentKeywords = []\<rparr> ()
       = js ''Customer requested human agent''
   \<and> handoffReason (projr (snd (processCall demoSvc demoEnv (js ''c1'') (js ''an agent please'') noContext)))
       = Some (js ''Customer requested human agent'')"
proof -
  have nm: "name (detectIntent (js ''an agent please'')) = js ''agent_request''"
    by (simp add: intent_eval)
  have "\<exists>svc' r. processCall demoSvc demoEnv (js ''c1'') (js ''an agent please'') noContext = (svc', Inr r)"
    by (simp add: processCall_def demoEnv_def Let_def)
  then obtain svc' r
    where run: "processCall demoSvc demoEnv (js ''c1'') (js ''an agent please'') noContext = (svc', Inr r)"
    by blast
  show ?thesis
    using agent_request_explicit_reason
            [where i = "\<lparr>name = js ''agent_request'', confidence = 0.1, intentKeywords = []\<rparr>"
               and isOpen = False and response = "()" and toolResults = "[]"
               and userInput = "js ''an agent please''" and svc = demoSvc and env = demoEnv
               and callId = "js ''c1''" and ctx = noContext and svc' = svc' and r = r]
          nm run
    by simp
qed

text \<open>
  C10: the reason reported is looked up by the name of the intent alone; two intents of
  the same name get the same reason whatever rule fired. No utterance is classified
  \<open>low_confidence\<close> or \<open>no_knowledge\<close>, so the two reasons stored under these keys are
  never reported for a classified utterance. A turn that hands off with an intent other
  than \<open>agent_request\<close> and \<open>technical_support\<close> (a handoff by the low-confidence rule
  or by the missing knowledge-base hit) reports the generic fallback.
\<close>

theorem handoff_reason_by_intent_name:
  "(name i = name i' \<longrightarrow> getHandoffReason i response = getHandoffReason i' response')
   \<and> getHandoffReason (detectIntent utterance) response \<noteq> js ''Unable to understand request clearly''
   \<and> getHandoffReason (detectIntent utterance) response \<noteq> js ''Information not available in knowledge base''
   \<and> (processCall svc env callId utterance ctx = (svc', Inr r) \<and> needsHandoff r
        \<and> resIntent r \<noteq> js ''agent_request'' \<and> resIntent r \<noteq> js ''technical_support'' \<longrightarrow>
      handoffReason r = Some (js ''Customer needs personalized assistance''))"
proof -
  have same: "getHandoffReason i response = getHandoffReason i' response'"
    if "name i = name i'"
    using that by (simp add: getHandoffReason_def)
  have never: "getHandoffReason (detectIntent utterance) response \<noteq> js ''Unable to understand request clearly''"
    "getHandoffReason (detectIntent utterance) response \<noteq> js ''Information not available in knowledge base''"
    by (simp_all add: detectIntent_reason js_def)
  have turn: "handoffReason r = Some (js ''Customer needs personalized assistance'')"
    if "processCall svc env callId utterance ctx = (svc', Inr r)" "needsHandoff r"
      "resIntent r \<noteq> js ''agent_request''" "resIntent r \<noteq> js ''technical_support''"
    using that(2-) processCall_result [OF that(1)]
    by (simp add: detectIntent_reason)
  from same never turn show ?thesis by blast
qed

theorem handoff_reason_by_intent_name_witness:
  "resIntent (projr (snd (processCall demoSvc emptyKnowledgeEnv (js ''c1'') (js ''what is the price'') noContext)))
     = js ''pricing''
   \<and> needsHandoff (projr (snd (processCall demoSvc emptyKnowledgeEnv (js ''c1'') (js ''what is the price'') noContext)))
   \<and> handoffReason (projr (snd (processCall demoSvc emptyKnowledgeEnv (js ''c1'') (js ''what is the price'') noContext)))
     = Some (js ''Customer needs personalized assistance'')"
proof -
  let ?p = "processCall demoSvc emptyKnowledgeEnv (js ''c1'') (js ''what is the price'') noContext"
  have di: "detectIntent (js ''what is the price'')
      = \<lparr>name = js ''pricing'', confidence = 0.3,
         intentKeywords = [js ''prix'', js ''tarif'', js ''cost'', js ''price'', js ''fiyat'']\<rparr>"
    by (simp add: intent_eval)
  have gc: "gatherContext emptyKnowledgeEnv (detectIntent (js ''what is the price''))
      (js ''what is the price'') noContext = []"
    unfolding di by (simp add: gatherContext_def emptyKnowledgeEnv_def demoEnv_def noContext_def
        orDefault_def js_def)
  have sh: "shouldHandoff True (detectIntent (js ''what is the price'')) (js ''ok'') []"
    unfolding di by (simp add: shouldHandoff_def js_def)
  have run: "?p = (fst ?p, Inr (projr (snd ?p)))"
    by (simp add: processCall_def emptyKnowledgeEnv_def demoEnv_def Let_def)
  have facts: "resIntent (projr (snd ?p)) = js ''pricing''" "needsHandoff (projr (snd ?p))"
    using gc sh di by (simp_all add: processCall_def emptyKnowledgeEnv_def demoEnv_def Let_def)
  have ne: "js ''pricing'' \<noteq> js ''agent_request''" "js ''pricing'' \<noteq> js ''technical_support''"
    by (simp_all add: js_def)
  show ?thesis
    using handoff_reason_by_intent_name
            [where utterance = "js ''what is the price''" and svc = demoSvc and env = emptyKnowledgeEnv
               and callId = "js ''c1''" and ctx = noContext and svc' = "fst ?p"
               and r = "projr (snd ?p)" and response = "()" and response' = "()"
               and i = "detectIntent (js ''what is the price'')"
               and i' = "detectIntent (js ''what is the price'')"]
          run facts ne
    by metis
qed

section \<open>Batch embeddings\<close>

lemma concat_batchesFrom: "concat (batchesFrom i xs) = drop i xs"
proof (induction i xs rule: batchesFrom.induct)
  case (1 i xs)
  show ?case
  proof (cases "i < length xs")
    case True
    have "take batchSize (drop i xs) @ drop (i + batchSize) xs
        = take batchSize (drop i xs) @ drop batchSize (drop i xs)"
      by (simp add: add.commute)
    also have "\<dots> = drop i xs" by (rule append_take_drop_id)
    finally have split: "take batchSize (drop i xs) @ drop (i + batchSize) xs = drop i xs" .
    have "concat (batchesFrom i xs)
        = take batchSize (drop i xs) @ concat (batchesFrom (i + batchSize) xs)"
      using True by (subst batchesFrom.simps) simp
    with 1 True split show ?thesis by simp
  next
    case False
    then show ?thesis by (subst batchesFrom.simps) simp
  qed
qed

lemma set_batchesFrom: "b \<in> set (batchesFrom i xs) \<Longrightarrow> set b \<subseteq> set xs"
proof (induction i xs rule: batchesFrom.induct)
  case (1 i xs)
  show ?case
  proof (cases "i < length xs")
    case True
    with 1 show ?thesis
      by (subst (asm) (2) batchesFrom.simps) (auto dest: in_set_takeD in_set_dropD)
  next
    case False
    with 1 show ?thesis by (subst (asm) (2) batchesFrom.simps) simp
  qed
qed

lemma batch_size_bound: "b \<in> set (batchesFrom i xs) \<Longrightarrow> length b \<le> batchSize \<and> b \<noteq> []"
proof (induction i xs rule: batchesFrom.induct)
  case (1 i xs)
  show ?case
  proof (cases "i < length xs")
    case True
    with 1 show ?thesis
      by (subst (asm) (2) batchesFrom.simps) (auto simp: batchSize_def)
  next
    case False
    with 1 show ?thesis by (subst (asm) (2) batchesFrom.simps) simp
  qed
qed

lemma embedBatches_all:
  "\<forall>b \<in> set bs. create b = Inr (map vectorOf b) \<Longrightarrow>
   embedBatches create bs sofar = Inr (sofar @ map vectorOf (concat bs))"
  by (induction bs arbitrary: sofar) auto


lemma blank_eval: "isBlank (js '' '')" "\<not> isBlank (js ''ab'')" "\<not> isBlank (js ''c'')"
  by (simp_all add: isBlank_def trim_def isWhiteSpace_def js_def)

text \<open>
  C1, as the code has it. For a batch with at least one non-blank entry and a provider
  that answers every request of non-blank texts with one vector per text, in order, the
  blank entries never reach the provider and the array returned is compacted: it holds
  the vectors of the non-blank texts in their original relative order and nothing at the
  places of the blank ones, so it is shorter than the input as soon as one entry is
  blank. It is not realigned to the original index positions.
\<close>

theorem generateEmbeddings_compacted:
  assumes provider: "\<forall>batch. (\<forall>t \<in> set batch. \<not> isBlank t) \<longrightarrow> create batch = Inr (map vectorOf batch)"
    and some: "\<exists>t \<in> set texts. \<not> isBlank t"
  shows "generateEmbeddings (Some create) texts
           = Inr (map vectorOf (filter (\<lambda>t. \<not> isBlank t) texts))
         \<and> ((\<exists>t \<in> set texts. isBlank t) \<longrightarrow>
              length (filter (\<lambda>t. \<not> isBlank t) texts) < length texts)"
proof -
  have shorter: "length (filter (\<lambda>t. \<not> isBlank t) texts) < length texts"
    if "\<exists>t \<in> set texts. isBlank t"
    using that by (auto intro: length_filter_less)
  let ?valid = "filter (\<lambda>t. \<not> isBlank t) texts"
  from some have ne: "?valid \<noteq> []" "texts \<noteq> []" by (auto simp: filter_empty_conv)
  have "\<forall>b \<in> set (batchesFrom 0 ?valid). create b = Inr (map vectorOf b)"
  proof
    fix b assume "b \<in> set (batchesFrom 0 ?valid)"
    then have "set b \<subseteq> set ?valid" by (rule set_batchesFrom)
    then have "\<forall>t \<in> set b. \<not> isBlank t" by auto
    with provider show "create b = Inr (map vectorOf b)" by blast
  qed
  then have "embedBatches create (batchesFrom 0 ?valid) [] = Inr ([] @ map vectorOf (concat (batchesFrom 0 ?valid)))"
    by (rule embedBatches_all)
  with ne shorter show ?thesis
    by (simp add: generateEmbeddings_def concat_batchesFrom)
qed

theorem generateEmbeddings_compacted_witness:
  "generateEmbeddings (Some lengthProvider) [js ''c'', js '' '', js ''ab''] = Inr [[1], [2]]
   \<and> length (filter (\<lambda>t. \<not> isBlank t) [js ''c'', js '' '', js ''ab''])
       < length [js ''c'', js '' '', js ''ab'']"
proof -
  have p: "\<forall>batch. (\<forall>t \<in> set batch. \<not> isBlank t) \<longrightarrow>
      lengthProvider batch = Inr (map (\<lambda>text. [real (length text)]) batch)"
    by (simp add: lengthProvider_def)
  have s: "\<exists>t \<in> set [js ''c'', js '' '', js ''ab'']. \<not> isBlank t"
    by (simp add: blank_eval)
  show ?thesis
    using generateEmbeddings_compacted [OF p s]
    by (simp add: blank_eval) (simp add: js_def)
qed

text \<open>
  C1 as the specification words it fails: of three texts with a blank one in the middle,
  two vectors come back, and the vector of the third text sits at index 1.
\<close>

theorem generateEmbeddings_realigned_counterexample:
  "generateEmbeddings (Some lengthProvider) [js ''ab'', js '' '', js ''c''] = Inr [[2], [1]]
   \<and> length [[2::real], [1]] \<noteq> length [js ''ab'', js '' '', js ''c'']"
proof -
  have b: "batchesFrom 0 [js ''ab'', js ''c''] = [[js ''ab'', js ''c'']]"
    by (simp add: batchesFrom.simps [of 0] batchesFrom.simps [of 2048] batchSize_def)
  show ?thesis
    by (simp add: generateEmbeddings_def blank_eval b lengthProvider_def) (simp add: js_def)
qed

section \<open>Text chunking\<close>

lemma joinWith_snoc:
  "joinWith sep (g @ [t]) = (if g = [] then t else joinWith sep g @ sep @ t)"
  by (induction sep g rule: joinWith.induct) auto

lemma joinWith_empty_iff:
  "\<forall>x \<in> set g. x \<noteq> [] \<Longrightarrow> joinWith sep g = [] \<longleftrightarrow> g = []"
  by (induction sep g rule: joinWith.induct) auto

lemma sentenceLoop_groups:
  assumes "\<forall>s \<in> set sentences. trim s \<noteq> []"
    and "\<forall>h \<in> set gs. boundedGroup m h"
    and "g = [] \<or> boundedGroup m g"
    and "chunks = map (joinWith (js '' '')) gs"
    and "currentChunk = joinWith (js '' '') g"
    and "sentenceLoop m sentences chunks currentChunk = (chunks', current')"
  shows "\<exists>gs' g'. concat (gs' @ [g']) = concat (gs @ [g]) @ map trim sentences
           \<and> (\<forall>h \<in> set gs'. boundedGroup m h) \<and> (g' = [] \<or> boundedGroup m g')
           \<and> chunks' = map (joinWith (js '' '')) gs' \<and> current' = joinWith (js '' '') g'"
  using assms
proof (induction sentences arbitrary: gs g chunks currentChunk)
  case Nil
  then show ?case by auto
next
  case (Cons s ss)
  let ?sp = "js '' ''"
  let ?t = "trim s"
  from Cons.prems(1) have t: "?t \<noteq> []" and rest: "\<forall>s \<in> set ss. trim s \<noteq> []" by auto
  from Cons.prems(3) have gne: "\<forall>x \<in> set g. x \<noteq> []" by (auto simp: boundedGroup_def)
  have cur_empty: "currentChunk = [] \<longleftrightarrow> g = []"
    using Cons.prems(5) joinWith_empty_iff [OF gne] by simp
  show ?case
  proof (cases "int (length (currentChunk @ ?sp @ ?t)) \<le> m")
    case True
    let ?g = "g @ [?t]"
    have cur: "currentChunk @ (if currentChunk \<noteq> [] then ?sp else []) @ ?t = joinWith ?sp ?g"
      using cur_empty Cons.prems(5) by (simp add: joinWith_snoc)
    have "length (joinWith ?sp ?g) \<le> length (currentChunk @ ?sp @ ?t)"
      using cur_empty Cons.prems(5) by (simp add: joinWith_snoc)
    with True have "int (length (joinWith ?sp ?g)) \<le> m" by linarith
    with gne t have bounded: "?g = [] \<or> boundedGroup m ?g" by (auto simp: boundedGroup_def)
    from Cons.prems(6) True cur
    have run: "sentenceLoop m ss chunks (joinWith ?sp ?g) = (chunks', current')"
      by (simp add: Let_def)
    from Cons.IH [OF rest Cons.prems(2) bounded Cons.prems(4) refl run]
    show ?thesis by auto
  next
    case False
    have single: "[?t] = [] \<or> boundedGroup m [?t]" using t by (simp add: boundedGroup_def)
    show ?thesis
    proof (cases "g = []")
      case True
      with Cons.prems(6) False cur_empty
      have run: "sentenceLoop m ss chunks (joinWith ?sp [?t]) = (chunks', current')"
        by (simp add: Let_def)
      from Cons.IH [OF rest Cons.prems(2) single Cons.prems(4) refl run] True
      show ?thesis by auto
    next
      case nonempty: False
      with Cons.prems(3) have bg: "\<forall>h \<in> set (gs @ [g]). boundedGroup m h"
        using Cons.prems(2) by auto
      have ch: "chunks @ [currentChunk] = map (joinWith ?sp) (gs @ [g])"
        using Cons.prems(4,5) by simp
      from Cons.prems(6) False cur_empty nonempty
      have run: "sentenceLoop m ss (chunks @ [currentChunk]) (joinWith ?sp [?t]) = (chunks', current')"
        by (simp add: Let_def)
      from Cons.IH [OF rest bg single ch refl run]
      show ?thesis by auto
    qed
  qed
qed

lemma in_set_dropWhile_keep: "c \<in> set xs \<Longrightarrow> \<not> P c \<Longrightarrow> c \<in> set (dropWhile P xs)"
  by (induction xs) auto

lemma trim_nonempty: "c \<in> set s \<Longrightarrow> \<not> isWhiteSpace c \<Longrightarrow> trim s \<noteq> []"
proof -
  assume c: "c \<in> set s" "\<not> isWhiteSpace c"
  then have "c \<in> set (rev (dropWhile isWhiteSpace s))"
    by (simp add: in_set_dropWhile_keep)
  then have "c \<in> set (dropWhile isWhiteSpace (rev (dropWhile isWhiteSpace s)))"
    using c(2) by (rule in_set_dropWhile_keep)
  then have "dropWhile isWhiteSpace (rev (dropWhile isWhiteSpace s)) \<noteq> []"
    by (cases "dropWhile isWhiteSpace (rev (dropWhile isWhiteSpace s))") simp_all
  then show ?thesis by (simp add: trim_def)
qed

lemma matchSentences_terminated:
  "x \<in> set (matchSentences s) \<Longrightarrow> \<exists>c \<in> set x. isTerminator c"
proof (induction s rule: matchSentences.induct)
  case (1 s)
  let ?rest = "dropWhile (\<lambda>c. \<not> isTerminator c) s"
  show ?case
  proof (cases "?rest = []")
    case True
    with 1(3) show ?thesis by (subst (asm) matchSentences.simps) (simp add: Let_def)
  next
    case False
    then have "isTerminator (hd ?rest)"
      using hd_dropWhile [of "\<lambda>c. \<not> isTerminator c" s] by simp
    with False have mk: "hd ?rest \<in> set (takeWhile isTerminator ?rest)"
      by (cases ?rest) auto
    from 1(3) False consider
        "x = takeWhile (\<lambda>c. \<not> isTerminator c) s @ takeWhile isTerminator ?rest"
      | "x \<in> set (matchSentences (dropWhile isTerminator ?rest))"
      by (subst (asm) matchSentences.simps) (auto simp: Let_def split: if_splits)
    then show ?thesis
    proof cases
      case 1
      with mk \<open>isTerminator (hd ?rest)\<close> show ?thesis by auto
    next
      case 2
      show ?thesis
      proof (cases "takeWhile (\<lambda>c. \<not> isTerminator c) s = []")
        case True
        from "1.IH"(1) [OF refl refl False refl refl True 2] show ?thesis .
      next
        case nonempty: False
        from "1.IH"(2) [OF refl refl False refl refl nonempty 2] show ?thesis .
      qed
    qed
  qed
qed

lemma terminator_not_space: "isTerminator c \<Longrightarrow> \<not> isWhiteSpace c"
  by (auto simp: isTerminator_def isWhiteSpace_def)

lemma sentencesOf_trim:
  "\<not> isBlank text \<Longrightarrow> s \<in> set (sentencesOf text) \<Longrightarrow> trim s \<noteq> []"
proof (cases "matchSentences text")
  case Nil
  assume "\<not> isBlank text" "s \<in> set (sentencesOf text)"
  with Nil show ?thesis by (simp add: sentencesOf_def isBlank_def)
next
  case (Cons m ms)
  assume "s \<in> set (sentencesOf text)"
  with Cons have "s \<in> set (matchSentences text)" by (simp add: sentencesOf_def)
  then obtain c where "c \<in> set s" "isTerminator c" using matchSentences_terminated by blast
  then show ?thesis using trim_nonempty terminator_not_space by blast
qed

text \<open>
  Sentence mode. Blank input gives no chunk. Otherwise the chunks are, in order, groups
  of consecutive whole trimmed sentences joined by single spaces, every sentence in
  exactly one group; a group is within the maximum size or consists of one sentence, so
  a chunk longer than the maximum is a single sentence left as it is.
\<close>

lemma chunkBySentences_groups:
  "(isBlank text \<longrightarrow> chunkBySentences text maxChunkSize = [])
   \<and> (\<not> isBlank text \<longrightarrow>
        (\<exists>groups. concat groups = map trim (sentencesOf text)
           \<and> (\<forall>g \<in> set groups. g \<noteq> []
                \<and> (int (length (joinWith (js '' '') g)) \<le> maxChunkSize \<or> length g = 1))
           \<and> map scText (chunkBySentences text maxChunkSize) = map (joinWith (js '' '')) groups
           \<and> map chunkIndex (chunkBySentences text maxChunkSize) = [0..<length groups]))"
proof (cases "isBlank text")
  case True
  then show ?thesis by (simp add: chunkBySentences_def)
next
  case False
  obtain chunks current
    where run: "sentenceLoop maxChunkSize (sentencesOf text) [] [] = (chunks, current)"
    by (cases "sentenceLoop maxChunkSize (sentencesOf text) [] []")
  have tr: "\<forall>s \<in> set (sentencesOf text). trim s \<noteq> []"
    using False by (auto dest: sentencesOf_trim)
  have "\<exists>gs' g'. concat (gs' @ [g']) = concat ([] @ [[]]) @ map trim (sentencesOf text)
           \<and> (\<forall>h \<in> set gs'. boundedGroup maxChunkSize h) \<and> (g' = [] \<or> boundedGroup maxChunkSize g')
           \<and> chunks = map (joinWith (js '' '')) gs' \<and> current = joinWith (js '' '') g'"
    by (rule sentenceLoop_groups [OF tr _ _ _ _ run]) simp_all
  then obtain gs g where g: "concat (gs @ [g]) = map trim (sentencesOf text)"
    "\<forall>h \<in> set gs. boundedGroup maxChunkSize h" "g = [] \<or> boundedGroup maxChunkSize g"
    "chunks = map (joinWith (js '' '')) gs" "current = joinWith (js '' '') g"
    by auto
  let ?groups = "gs @ (if g = [] then [] else [g])"
  let ?final = "if current \<noteq> [] then chunks @ [current] else chunks"
  from g(3) have gne: "\<forall>x \<in> set g. x \<noteq> []" by (auto simp: boundedGroup_def)
  have cur: "current = [] \<longleftrightarrow> g = []"
    using g(5) joinWith_empty_iff [OF gne] by simp
  have final: "?final = map (joinWith (js '' '')) ?groups"
    using cur g(4,5) by simp
  have result: "chunkBySentences text maxChunkSize
      = map (\<lambda>(index, chunk). \<lparr>scText = chunk, chunkIndex = index\<rparr>) (enumerate 0 ?final)"
    using False run by (simp add: chunkBySentences_def)
  have texts: "map scText (chunkBySentences text maxChunkSize) = ?final"
    unfolding result by (simp add: case_prod_unfold comp_def map_snd_enumerate [unfolded comp_def] o_def)
  have idx: "map chunkIndex (chunkBySentences text maxChunkSize) = [0..<length ?final]"
    unfolding result by (simp add: case_prod_unfold comp_def map_fst_enumerate [unfolded comp_def])
  have "concat ?groups = map trim (sentencesOf text)" using g(1) by (cases "g = []") simp_all
  moreover have "\<forall>h \<in> set ?groups. h \<noteq> []
      \<and> (int (length (joinWith (js '' '') h)) \<le> maxChunkSize \<or> length h = 1)"
    using g(2,3) by (auto simp: boundedGroup_def)
  moreover have "map scText (chunkBySentences text maxChunkSize) = map (joinWith (js '' '')) ?groups"
    using texts final by simp
  moreover have "map chunkIndex (chunkBySentences text maxChunkSize) = [0..<length ?groups]"
    using idx final by (metis length_map)
  ultimately show ?thesis using False by blast
qed

lemma splitWhiteSpace_nonempty: "splitWhiteSpace s \<noteq> []"
  by (subst splitWhiteSpace.simps) (simp add: Let_def)

lemma chunkTextLoop_stuck:
  "overlap \<ge> chunkSize \<Longrightarrow> i \<le> 0 \<Longrightarrow> words \<noteq> [] \<Longrightarrow>
   chunkTextLoop fuel words chunkSize overlap i chunks = None"
proof (induction fuel arbitrary: i chunks)
  case 0
  show ?case by simp
next
  case (Suc fuel)
  from Suc.prems have "i < int (length words)" by (cases words) auto
  moreover from Suc.prems have "i + (chunkSize - overlap) \<le> 0" by simp
  ultimately show ?case
    using Suc.IH Suc.prems by (simp add: Let_def)
qed

lemma chunkTextLoop_returns:
  "overlap < chunkSize \<Longrightarrow> nat (int (length words) - i) < fuel \<Longrightarrow>
   \<exists>result. chunkTextLoop fuel words chunkSize overlap i chunks = Some result"
proof (induction fuel arbitrary: i chunks)
  case 0
  then show ?case by simp
next
  case (Suc fuel)
  show ?case
  proof (cases "i < int (length words)")
    case True
    with Suc.prems have "nat (int (length words) - (i + (chunkSize - overlap))) < fuel" by linarith
    with Suc.IH Suc.prems(1) True show ?thesis by (simp add: Let_def)
  next
    case False
    then show ?thesis by simp
  qed
qed

text \<open>Fixed-window mode returns whenever the overlap is smaller than the window.\<close>

lemma chunkText_returns:
  "overlap < chunkSize \<Longrightarrow>
   \<exists>result. chunkText (Suc (length (splitWhiteSpace text))) text chunkSize overlap = Some result"
proof (cases "isBlank text")
  case True
  then show ?thesis by (simp add: chunkText_def)
next
  case False
  assume "overlap < chunkSize"
  then have "\<exists>result. chunkTextLoop (Suc (length (splitWhiteSpace text))) (splitWhiteSpace text)
      chunkSize overlap 0 [] = Some result"
    by (intro chunkTextLoop_returns) simp_all
  with False show ?thesis by (simp add: chunkText_def)
qed


text \<open>
  C6 asks that \<open>chunkText\<close> end on every input, an overlap not smaller than the window
  being reported as a configuration error. The code has no such check: with
  \<open>overlap \<ge> chunkSize\<close> the index never moves forward and, on every text that is
  not blank, the loop has not returned whatever fuel it is given.
\<close>

theorem chunkText_never_returns:
  "overlap \<ge> chunkSize \<Longrightarrow> \<not> isBlank text \<Longrightarrow> chunkText fuel text chunkSize overlap = None"
  by (simp add: chunkText_def chunkTextLoop_stuck splitWhiteSpace_nonempty)

theorem chunkText_never_returns_witness:
  "\<not> isBlank (js ''a b'') \<and> (\<forall>fuel. chunkText fuel (js ''a b'') 1 1 = None)"
proof -
  have nb: "\<not> isBlank (js ''a b'')"
    by (simp add: isBlank_def trim_def isWhiteSpace_def js_def)
  have le: "(1::int) \<ge> 1" by simp
  show ?thesis
    using chunkText_never_returns [OF le nb] nb by simp
qed

section \<open>The vector store\<close>






lemma insertLoop_spec:
  assumes "transaction db = Some pending"
    and "insertLoop db chunks ids = (db', res)"
  shows "documents db' = documents db \<and> document_chunks db' = document_chunks db
         \<and> vectorDimension db' = vectorDimension db
         \<and> (if list_all (insertable db) chunks
             then res = Inr (ids @ [nextId db ..< nextId db + length chunks])
                  \<and> transaction db'
                      = Some (pending @ map2 chunkRow [nextId db ..< nextId db + length chunks] chunks)
             else (\<exists>e. res = Inl e))"
  using assms
proof (induction chunks arbitrary: db pending ids)
  case Nil
  then show ?case by auto
next
  case (Cons c cs)
  show ?case
  proof (cases "insertable db c")
    case False
    with Cons.prems show ?thesis
      by (auto simp: insertable_def queryInsert_def split: option.splits if_splits)
  next
    case True
    let ?db1 = "db\<lparr>transaction := Some (pending @ [chunkRow (nextId db) c]), nextId := Suc (nextId db)\<rparr>"
    from True Cons.prems(1) have q: "queryInsert db c = (?db1, Inr (nextId db))"
      by (auto simp: insertable_def queryInsert_def split: option.splits)
    with Cons.prems(2) have run: "insertLoop ?db1 cs (ids @ [nextId db]) = (db', res)" by simp
    have tx: "transaction ?db1 = Some (pending @ [chunkRow (nextId db) c])" by simp
    have same: "insertable ?db1 = insertable db" by (rule ext) (simp add: insertable_def split: option.splits)
    have up: "[nextId db ..< nextId db + length (c # cs)]
        = nextId db # [Suc (nextId db) ..< Suc (nextId db) + length cs]"
      by (subst upt_rec) simp
    from Cons.IH [OF tx run] True show ?thesis
      unfolding same up by (auto split: if_splits)
  qed
qed

text \<open>
  C5: \<open>insertChunks\<close> is atomic. When every chunk of the batch can be inserted, all of
  them are persisted, in order, and their ids returned; when one cannot (wherever it
  stands in the batch), the call fails and the committed rows are the ones there were
  before: no row of the batch is persisted.
\<close>

theorem insertChunks_atomic:
  "insertChunks db chunks = (db', res) \<Longrightarrow>
     documents db' = documents db \<and> transaction db' = None
     \<and> (if \<forall>chunk \<in> set chunks. insertable db chunk
         then (\<exists>ids. res = Inr ids \<and> length ids = length chunks
                 \<and> document_chunks db' = document_chunks db @ map2 chunkRow ids chunks)
         else (\<exists>e. res = Inl e) \<and> document_chunks db' = document_chunks db)"
proof -
  assume run: "insertChunks db chunks = (db', res)"
  obtain db1 res1 where loop: "insertLoop (queryBegin db) chunks [] = (db1, res1)"
    by (cases "insertLoop (queryBegin db) chunks []")
  have tx: "transaction (queryBegin db) = Some []" by (simp add: queryBegin_def)
  have same: "insertable (queryBegin db) = insertable db"
    by (rule ext) (simp add: insertable_def queryBegin_def split: option.splits)
  note spec = insertLoop_spec [OF tx loop, unfolded same]
  show ?thesis
  proof (cases "\<forall>chunk \<in> set chunks. insertable db chunk")
    case True
    then have "list_all (insertable db) chunks" by (simp add: list_all_iff)
    with spec run loop True show ?thesis
      by (auto simp: insertChunks_def queryCommit_def queryBegin_def)
  next
    case False
    then have "\<not> list_all (insertable db) chunks" by (simp add: list_all_iff)
    with spec run loop False show ?thesis
      by (auto simp: insertChunks_def queryRollback_def queryBegin_def)
  qed
qed


theorem insertChunks_atomic_witness:
  "document_chunks (fst (insertChunks sampleStore
       [goodChunk, goodChunk, malformedChunk, goodChunk, goodChunk]))
     = document_chunks sampleStore
   \<and> isl (snd (insertChunks sampleStore [goodChunk, goodChunk, malformedChunk, goodChunk, goodChunk]))
   \<and> snd (insertChunks sampleStore [goodChunk, goodChunk]) = Inr [5, 6]
   \<and> document_chunks (fst (insertChunks sampleStore [goodChunk, goodChunk]))
     = document_chunks sampleStore @ [chunkRow 5 goodChunk, chunkRow 6 goodChunk]"
proof -
  let ?bad = "[goodChunk, goodChunk, malformedChunk, goodChunk, goodChunk]"
  let ?good = "[goodChunk, goodChunk]"
  have g: "insertable sampleStore goodChunk"
    by (simp add: insertable_def sampleStore_def goodChunk_def)
  have m: "\<not> insertable sampleStore malformedChunk"
    by (simp add: insertable_def sampleStore_def malformedChunk_def goodChunk_def)
  have ids: "snd (insertChunks sampleStore ?good) = Inr [5, 6]"
    using g by (simp add: insertChunks_def queryBegin_def queryInsert_def insertable_def
        sampleStore_def goodChunk_def queryCommit_def list_ex_iff)
  have pb: "insertChunks sampleStore ?bad
      = (fst (insertChunks sampleStore ?bad), snd (insertChunks sampleStore ?bad))" by simp
  have pg: "insertChunks sampleStore ?good
      = (fst (insertChunks sampleStore ?good), snd (insertChunks sampleStore ?good))" by simp
  from insertChunks_atomic [OF pb] g m
  have bad: "document_chunks (fst (insertChunks sampleStore ?bad)) = document_chunks sampleStore"
    "isl (snd (insertChunks sampleStore ?bad))"
    by auto
  from insertChunks_atomic [OF pg] g ids
  have "document_chunks (fst (insertChunks sampleStore ?good))
     = document_chunks sampleStore @ [chunkRow 5 goodChunk, chunkRow 6 goodChunk]"
    by auto
  with bad ids show ?thesis by simp
qed

section \<open>Indexing a Drive folder\<close>














end
